theory Spec2Isabelle
  imports Complex_Main
begin

section \<open>Python values and errors\<close>

text \<open>
  The exceptions the modelled functions of \<^verbatim>\<open>search/qgram_index.py\<close> can raise.
  Every function that can raise returns \<open>py_error + 'a\<close>, with \<open>Inl\<close> the exception.
\<close>

datatype py_error = IndexError | KeyError | AttributeError | ValueError | NotImplementedError

text \<open>
  Modelled from the spec: the enumerations of \<^verbatim>\<open>search/enums.py\<close>, which the source
  imports. The record categories are GYM, POKESTOP and UNKNOWN; the scoring methods are
  LEVENSHTEIN, NEEDLEMAN_WUNSCH and AFFINE_GAPS.
\<close>

datatype RECORD_TYPE = GYM | POKESTOP | UNKNOWN

datatype SCORING_TYPE = LEVENSHTEIN | NEEDLEMAN_WUNSCH | AFFINE_GAPS

text \<open>
  The dynamically typed values that occur as tuple fields of a catalog row, as stored
  coordinates and as channel identifiers: a string, a number, a category, or \<^verbatim>\<open>None\<close>.
\<close>

datatype pyval = PStr string | PNum rat | PType RECORD_TYPE | PNone

text \<open>Python truthiness, as used by \<^verbatim>\<open>if channel_id\<close>.\<close>

fun truthy :: "pyval \<Rightarrow> bool" where
  "truthy PNone = False"
| "truthy (PNum n) = (n \<noteq> 0)"
| "truthy (PStr s) = (s \<noteq> [])"
| "truthy (PType t) = True"

text \<open>
  Python's slice \<^verbatim>\<open>s[i:j]\<close>: a negative bound counts from the end, and both bounds
  are clamped to the length.
\<close>

definition py_bound :: "int \<Rightarrow> int \<Rightarrow> int" where
  "py_bound n i = (if i < 0 then max 0 (n + i) else min i n)"

definition py_slice :: "'a list \<Rightarrow> int \<Rightarrow> int \<Rightarrow> 'a list" where
  "py_slice s i j =
     (let n = int (length s); lo = py_bound n i; hi = py_bound n j
      in take (nat (hi - lo)) (drop (nat lo) s))"

text \<open>\<^verbatim>\<open>s[:k]\<close>, the slice from the start.\<close>

definition py_prefix :: "'a list \<Rightarrow> int \<Rightarrow> 'a list" where
  "py_prefix s k = py_slice s 0 k"

text \<open>
  Reading a list at an index that is not negative, \<^verbatim>\<open>xs[i]\<close>; it raises IndexError
  past the end.
\<close>

definition py_index :: "'a list \<Rightarrow> nat \<Rightarrow> py_error + 'a" where
  "py_index xs i = (if i < length xs then Inr (xs ! i) else Inl IndexError)"

section \<open>The tokenizer\<close>

text \<open>
  \<^verbatim>\<open>get_qgrams(str, q)\<close>: the text is padded with \<open>q - 1\<close> dollar signs on each side
  (\<^verbatim>\<open>"$" * n\<close> is empty for \<open>n \<le> 0\<close>), and the loop over
  \<^verbatim>\<open>range(0, len(str) - q + 1)\<close> appends the slice \<^verbatim>\<open>str[i:i + q]\<close>.
\<close>

definition pad :: "string \<Rightarrow> int \<Rightarrow> string" where
  "pad text q = replicate (nat (q - 1)) (CHR ''$'') @ text @ replicate (nat (q - 1)) (CHR ''$'')"

definition get_qgrams :: "string \<Rightarrow> int \<Rightarrow> string list" where
  "get_qgrams text q =
     (let s = pad text q
      in map (\<lambda>i. py_slice s (int i) (int i + q)) [0 ..< nat (int (length s) - q + 1)])"

section \<open>The candidate merger\<close>

text \<open>
  A \<^verbatim>\<open>Counter\<close> is a dictionary that keeps its keys in insertion order; it is modelled
  as an association list. \<^verbatim>\<open>update\<close> adds one to the count of each element of the
  iterable, inserting a new key at the end.
\<close>

fun counter_add :: "('a \<times> int) list \<Rightarrow> 'a \<Rightarrow> ('a \<times> int) list" where
  "counter_add [] k = [(k, 1)]"
| "counter_add ((k', n) # rest) k =
     (if k' = k then (k', n + 1) # rest else (k', n) # counter_add rest k)"

definition counter_update :: "('a \<times> int) list \<Rightarrow> 'a list \<Rightarrow> ('a \<times> int) list" where
  "counter_update c l = fold (\<lambda>k c. counter_add c k) l c"

definition merge :: "'a list list \<Rightarrow> ('a \<times> int) list" where
  "merge ls = fold (\<lambda>l c. counter_update c l) ls []"

text \<open>
  The order of first occurrence: the distinct elements of a list, each at the place where
  it is first seen.
\<close>

fun first_seen :: "'a list \<Rightarrow> 'a list" where
  "first_seen [] = []"
| "first_seen (x # xs) = x # first_seen (removeAll x xs)"

section \<open>The alignment scorers\<close>

text \<open>
  A matrix is a list of rows. \<open>get2\<close> reads \<^verbatim>\<open>matrix[x][y]\<close> and \<open>set2\<close>
  is the assignment \<^verbatim>\<open>matrix[x][y] = v\<close>. Every index the scorers use lies inside
  the matrix (the loops run over \<^verbatim>\<open>range(1, size)\<close>); the theorems below that
  relate each matrix to its recurrence depend on that.
\<close>

definition get2 :: "'a list list \<Rightarrow> nat \<Rightarrow> nat \<Rightarrow> 'a" where
  "get2 m x y = m ! x ! y"

definition set2 :: "'a list list \<Rightarrow> nat \<Rightarrow> nat \<Rightarrow> 'a \<Rightarrow> 'a list list" where
  "set2 m x y v = m[x := (m ! x)[y := v]]"

text \<open>Python's \<^verbatim>\<open>min(a, b, c)\<close>.\<close>

definition min3 :: "'a::linorder \<Rightarrow> 'a \<Rightarrow> 'a \<Rightarrow> 'a" where
  "min3 a b c = min (min a b) c"

text \<open>Python's \<^verbatim>\<open>min(row)\<close> of a list; it raises ValueError on the empty list.\<close>

fun py_min :: "'a::linorder list \<Rightarrow> py_error + 'a" where
  "py_min [] = Inl ValueError"
| "py_min (x # xs) = Inr (fold min xs x)"

subsection \<open>Prefix edit distance\<close>

text \<open>
  \<^verbatim>\<open>compute_ped(prefix, str, delta)\<close>. The matrix has \<open>n = len(prefix) + 1\<close> rows
  and \<open>m = min(len(prefix) + delta + 1, len(str) + 1)\<close> columns; \<^verbatim>\<open>range(m)\<close> is
  empty for \<open>m \<le> 0\<close>. With no column, the first assignment \<^verbatim>\<open>matrix[1][0] = 1\<close>
  raises IndexError when there is a second row, and otherwise \<^verbatim>\<open>min(matrix[0])\<close>
  raises ValueError on the empty row.
\<close>

definition ped_cell :: "int list list \<Rightarrow> 'a list \<Rightarrow> 'a list \<Rightarrow> nat \<Rightarrow> nat \<Rightarrow> int" where
  "ped_cell matrix prefix str i j =
     (let repl = get2 matrix (i - 1) (j - 1) + 1;
          repl = (if prefix ! (i - 1) = str ! (j - 1) then get2 matrix (i - 1) (j - 1) else repl)
      in min (min repl (get2 matrix i (j - 1) + 1)) (get2 matrix (i - 1) j + 1))"

definition ped_matrix :: "'a list \<Rightarrow> 'a list \<Rightarrow> nat \<Rightarrow> nat \<Rightarrow> int list list" where
  "ped_matrix prefix str n m =
     (let matrix = replicate n (replicate m 0);
          matrix = fold (\<lambda>j mat. set2 mat j 0 (int j)) [1 ..< n] matrix;
          matrix = fold (\<lambda>j mat. set2 mat 0 j (int j)) [1 ..< m] matrix
      in fold (\<lambda>i mat. fold (\<lambda>j mat. set2 mat i j (ped_cell mat prefix str i j)) [1 ..< m] mat)
           [1 ..< n] matrix)"

definition compute_ped :: "'a list \<Rightarrow> 'a list \<Rightarrow> int \<Rightarrow> py_error + int" where
  "compute_ped prefix str delta =
     (let n = int (length prefix) + 1;
          m = min (int (length prefix) + delta + 1) (int (length str) + 1)
      in if m \<le> 0 then (if 1 < n then Inl IndexError else Inl ValueError)
         else py_min (ped_matrix prefix str (nat n) (nat m) ! (nat n - 1)))"

subsection \<open>The three scorers\<close>

text \<open>
  The scorers work on a numpy matrix of floats. Every value they compute is an integer
  or, in the affine scorer, a multiple of one half; such values are exact in floating
  point at any size a string can reach, so the matrix is modelled over the rationals.

  The first two loops of each scorer set row 0 and column 0 to the index.
\<close>

definition init_matrix :: "nat \<Rightarrow> nat \<Rightarrow> rat list list" where
  "init_matrix size_x size_y =
     (let matrix = replicate size_x (replicate size_y 0);
          matrix = fold (\<lambda>x mat. set2 mat x 0 (of_nat x)) [0 ..< size_x] matrix
      in fold (\<lambda>y mat. set2 mat 0 y (of_nat y)) [0 ..< size_y] matrix)"

text \<open>
  The value the three scorers first give a cell: the minimum over the three neighbours,
  with the match cost on the diagonal when the characters agree and the mismatch cost
  otherwise.
\<close>

definition dp_min ::
  "rat list list \<Rightarrow> 'a list \<Rightarrow> 'a list \<Rightarrow> rat \<Rightarrow> rat \<Rightarrow> rat \<Rightarrow> nat \<Rightarrow> nat \<Rightarrow> rat" where
  "dp_min matrix seq1 seq2 match mismatch gap_penalty x y =
     (if seq1 ! (x - 1) = seq2 ! (y - 1)
      then min3 (get2 matrix (x - 1) y + gap_penalty)
                (get2 matrix (x - 1) (y - 1) + match)
                (get2 matrix x (y - 1) + gap_penalty)
      else min3 (get2 matrix (x - 1) y + gap_penalty)
                (get2 matrix (x - 1) (y - 1) + mismatch)
                (get2 matrix x (y - 1) + gap_penalty))"

definition levenshtein_matrix :: "'a list \<Rightarrow> 'a list \<Rightarrow> rat list list" where
  "levenshtein_matrix seq1 seq2 =
     (let size_x = length seq1 + 1; size_y = length seq2 + 1
      in fold (\<lambda>x mat. fold (\<lambda>y mat. set2 mat x y (dp_min mat seq1 seq2 0 1 1 x y))
                          [1 ..< size_y] mat)
           [1 ..< size_x] (init_matrix size_x size_y))"

definition levenshtein :: "'a list \<Rightarrow> 'a list \<Rightarrow> rat" where
  "levenshtein seq1 seq2 = get2 (levenshtein_matrix seq1 seq2) (length seq1) (length seq2)"

text \<open>
  The gap-opening test of the two gap scorers,
  \<^verbatim>\<open>matrix[x, y] == matrix[x - 1, y] + gap_penalty or matrix[x, y - 1] + gap_penalty\<close>:
  the right operand of \<^verbatim>\<open>or\<close> is a number, and a number is true when it is not zero.
\<close>

definition gap_test :: "rat list list \<Rightarrow> rat \<Rightarrow> nat \<Rightarrow> nat \<Rightarrow> bool" where
  "gap_test matrix gap_penalty x y =
     (get2 matrix x y = get2 matrix (x - 1) y + gap_penalty
      \<or> get2 matrix x (y - 1) + gap_penalty \<noteq> 0)"

text \<open>
  The loop state of a gap scorer is the matrix and the flag \<^verbatim>\<open>gap_opened\<close>. The cell
  step takes the test as a parameter, so that the scorer of the source (with
  \<open>gap_test\<close>) and the variant whose test always holds share the rest of the body.
\<close>

definition nw_cell ::
  "(rat list list \<Rightarrow> rat \<Rightarrow> nat \<Rightarrow> nat \<Rightarrow> bool) \<Rightarrow> 'a list \<Rightarrow> 'a list \<Rightarrow> nat \<Rightarrow> nat
   \<Rightarrow> rat list list \<times> bool \<Rightarrow> rat list list \<times> bool" where
  "nw_cell test seq1 seq2 x y st =
     (let (matrix, gap_opened) = st;
          matrix = set2 matrix x y (dp_min matrix seq1 seq2 (- 1) 1 1 x y)
      in if test matrix 1 x y \<and> \<not> gap_opened
         then (set2 matrix x y (get2 matrix x y + 3), True)
         else (matrix, False))"

definition affine_cell ::
  "(rat list list \<Rightarrow> rat \<Rightarrow> nat \<Rightarrow> nat \<Rightarrow> bool) \<Rightarrow> 'a list \<Rightarrow> 'a list \<Rightarrow> nat \<Rightarrow> nat
   \<Rightarrow> rat list list \<times> bool \<Rightarrow> rat list list \<times> bool" where
  "affine_cell test seq1 seq2 x y st =
     (let (matrix, gap_opened) = st;
          matrix = set2 matrix x y (dp_min matrix seq1 seq2 (- 3) 1 (1 / 2) x y)
      in if test matrix (1 / 2) x y
         then (if \<not> gap_opened then (set2 matrix x y (get2 matrix x y + 3), True)
               else (matrix, gap_opened))
         else (matrix, False))"

definition gap_scoring ::
  "(nat \<Rightarrow> nat \<Rightarrow> rat list list \<times> bool \<Rightarrow> rat list list \<times> bool) \<Rightarrow> 'a list \<Rightarrow> 'a list \<Rightarrow> rat" where
  "gap_scoring cell seq1 seq2 =
     (let size_x = length seq1 + 1; size_y = length seq2 + 1;
          (matrix, gap_opened) =
             fold (\<lambda>x st. fold (\<lambda>y st. cell x y st) [1 ..< size_y] st) [1 ..< size_x]
               (init_matrix size_x size_y, False)
      in get2 matrix (size_x - 1) (size_y - 1))"

definition needleman_wunsch_scoring :: "'a list \<Rightarrow> 'a list \<Rightarrow> rat" where
  "needleman_wunsch_scoring seq1 seq2 = gap_scoring (nw_cell gap_test seq1 seq2) seq1 seq2"

definition affine_gap_scoring :: "'a list \<Rightarrow> 'a list \<Rightarrow> rat" where
  "affine_gap_scoring seq1 seq2 = gap_scoring (affine_cell gap_test seq1 seq2) seq1 seq2"

text \<open>
  The variants the specification describes: the opening penalty is added whenever
  \<^verbatim>\<open>gap_opened\<close> is false, whatever the matrix holds.
\<close>

definition always_open :: "rat list list \<Rightarrow> rat \<Rightarrow> nat \<Rightarrow> nat \<Rightarrow> bool" where
  "always_open matrix gap_penalty x y = True"

definition needleman_wunsch_unconditional :: "'a list \<Rightarrow> 'a list \<Rightarrow> rat" where
  "needleman_wunsch_unconditional seq1 seq2 =
     gap_scoring (nw_cell always_open seq1 seq2) seq1 seq2"

definition affine_gap_unconditional :: "'a list \<Rightarrow> 'a list \<Rightarrow> rat" where
  "affine_gap_unconditional seq1 seq2 =
     gap_scoring (affine_cell always_open seq1 seq2) seq1 seq2"

text \<open>
  The recurrences the matrices are compared with: the unit-cost edit distance between
  the first \<open>x\<close> elements of one sequence and the first \<open>y\<close> of the other.
\<close>

fun edit_rec :: "'a list \<Rightarrow> 'a list \<Rightarrow> nat \<Rightarrow> nat \<Rightarrow> int" where
  "edit_rec a b 0 y = int y"
| "edit_rec a b (Suc x) 0 = int (Suc x)"
| "edit_rec a b (Suc x) (Suc y) =
     min (min (edit_rec a b x y + (if a ! x = b ! y then 0 else 1))
              (edit_rec a b (Suc x) y + 1))
         (edit_rec a b x (Suc y) + 1)"

section \<open>The point-of-interest index\<close>

subsection \<open>Strings\<close>

text \<open>
  \<^verbatim>\<open>str.strip()\<close> removes the whitespace at both ends; the normalisation
  \<^verbatim>\<open>re.sub("[ \W+\n]", "", record).lower()\<close> removes every character of the class (a
  space, a character that is not a word character, a plus sign or a line feed) and lowers
  the rest.

  The model covers ASCII text only. Python classifies and lowers by Unicode: it keeps and
  lowers a letter beyond ASCII, which the model removes, and \<^verbatim>\<open>strip\<close> also removes
  the whitespace characters beyond ASCII. No theorem below depends on how a character is
  classified.
\<close>

definition is_space :: "char \<Rightarrow> bool" where
  "is_space c = (let n = (of_char c :: nat) in (9 \<le> n \<and> n \<le> 13) \<or> (28 \<le> n \<and> n \<le> 32))"

definition strip :: "string \<Rightarrow> string" where
  "strip s = rev (dropWhile is_space (rev (dropWhile is_space s)))"

definition is_word_char :: "char \<Rightarrow> bool" where
  "is_word_char c =
     (let n = (of_char c :: nat)
      in (48 \<le> n \<and> n \<le> 57) \<or> (65 \<le> n \<and> n \<le> 90) \<or> (97 \<le> n \<and> n \<le> 122) \<or> n = 95)"

definition lower_char :: "char \<Rightarrow> char" where
  "lower_char c =
     (let n = (of_char c :: nat) in if 65 \<le> n \<and> n \<le> 90 then char_of (n + 32) else c)"

definition normalize :: "string \<Rightarrow> string" where
  "normalize record =
     map lower_char
       (filter (\<lambda>c. \<not> (c = CHR '' '' \<or> \<not> is_word_char c \<or> c = CHR ''+'' \<or> c = CHR 0x0A))
          record)"

subsection \<open>The index object\<close>

text \<open>
  Modelled from the spec: \<^verbatim>\<open>GeofenceHelper\<close> of \<^verbatim>\<open>geofence/geofencehelper.py\<close>,
  which the source imports. A helper is its capability
  \<^verbatim>\<open>is_in_any_geofence(latitude, longitude)\<close>, a predicate without effects, and the
  geofence a helper is built from is represented by the same predicate.
\<close>

type_synonym geofence_helper = "pyval \<Rightarrow> pyval \<Rightarrow> bool"

text \<open>
  A match as \<^verbatim>\<open>find_matches\<close> returns it: the record, its coordinates, its type and
  its score.
\<close>

type_synonym scored_match = "string \<times> (pyval \<times> pyval) \<times> RECORD_TYPE option \<times> rat"

text \<open>
  The fields of \<^verbatim>\<open>PointOfInterestQgramIndex\<close>. The scoring method is \<open>None\<close> when
  the field holds a value that is none of the three methods.
\<close>

record index =
  inverted_lists :: "string \<rightharpoonup> nat list"
  q :: int
  vocab :: "nat \<rightharpoonup> string"
  longitude :: "pyval list"
  latitude :: "pyval list"
  types :: "RECORD_TYPE option list"
  scoring_method :: "SCORING_TYPE option"
  use_geofences :: bool
  channel_to_geofence_helper :: "pyval \<rightharpoonup> geofence_helper"

text \<open>\<^verbatim>\<open>__init__(self, q, use_geofences, channel_to_geofences)\<close>.\<close>

definition new_index :: "int \<Rightarrow> bool \<Rightarrow> (pyval \<rightharpoonup> geofence_helper) \<Rightarrow> index" where
  "new_index qn use_geo channel_to_geofences =
     \<lparr> inverted_lists = Map.empty, q = qn, vocab = Map.empty, longitude = [], latitude = [],
       types = [], scoring_method = Some AFFINE_GAPS, use_geofences = use_geo,
       channel_to_geofence_helper = (if use_geo then channel_to_geofences else Map.empty) \<rparr>"

subsection \<open>Building\<close>

text \<open>
  The inner loop of both build operations: the record id is appended to the posting
  list of each q-gram, a new q-gram getting an empty list first.
\<close>

definition add_posting :: "nat \<Rightarrow> string \<Rightarrow> index \<Rightarrow> index" where
  "add_posting record_id qgram idx =
     (let lists = (if inverted_lists idx qgram = None then (inverted_lists idx)(qgram \<mapsto> [])
                   else inverted_lists idx)
      in idx\<lparr>inverted_lists := lists(qgram \<mapsto> the (lists qgram) @ [record_id])\<rparr>)"

definition index_qgrams :: "nat \<Rightarrow> string \<Rightarrow> index \<Rightarrow> index" where
  "index_qgrams record_id record idx =
     fold (add_posting record_id) (get_qgrams (normalize record) (q idx)) idx"

text \<open>
  One row of \<^verbatim>\<open>build_from_lists\<close>. \<^verbatim>\<open>row[0]\<close> raises IndexError on an empty row and
  \<^verbatim>\<open>.strip()\<close> raises AttributeError on a value that is not a string. The longitude
  is read from \<^verbatim>\<open>row[2]\<close> under the test \<^verbatim>\<open>len(row) > 1\<close>, and the latitude from
  \<^verbatim>\<open>row[1]\<close> under the test \<^verbatim>\<open>len(row) > 2\<close>. The type is kept when it is the
  category GYM or POKESTOP, and is UNKNOWN otherwise.
\<close>

definition build_row_lists :: "nat \<Rightarrow> pyval list \<Rightarrow> index \<Rightarrow> py_error + index" where
  "build_row_lists record_id row idx =
     (case row of
        [] \<Rightarrow> Inl IndexError
      | PStr name # _ \<Rightarrow>
          (let record = strip name;
               idx = idx\<lparr>vocab := (vocab idx)(record_id \<mapsto> record)\<rparr>
           in case (if length row > 1
                    then (case py_index row 2 of
                            Inl e \<Rightarrow> Inl e
                          | Inr lon \<Rightarrow> Inr (idx\<lparr>longitude := longitude idx @ [lon]\<rparr>))
                    else Inr (idx\<lparr>longitude := longitude idx @ [PNone]\<rparr>))
              of Inl e \<Rightarrow> Inl e
               | Inr idx \<Rightarrow>
                (let idx = (if length row > 2 then idx\<lparr>latitude := latitude idx @ [row ! 1]\<rparr>
                            else idx\<lparr>latitude := latitude idx @ [PNone]\<rparr>);
                     idx = (if length row > 3
                            then (let record_type = row ! 3
                                  in if record_type = PType GYM
                                     then idx\<lparr>types := types idx @ [Some GYM]\<rparr>
                                     else if record_type = PType POKESTOP
                                     then idx\<lparr>types := types idx @ [Some POKESTOP]\<rparr>
                                     else idx\<lparr>types := types idx @ [Some UNKNOWN]\<rparr>)
                            else idx\<lparr>types := types idx @ [Some UNKNOWN]\<rparr>);
                     idx = idx\<lparr>vocab := (vocab idx)(record_id \<mapsto> record)\<rparr>
                 in Inr (index_qgrams record_id record idx)))
      | _ # _ \<Rightarrow> Inl AttributeError)"

text \<open>
  One row of \<^verbatim>\<open>build_from_file\<close>, a list of strings as the CSV reader yields it. A
  row of fewer than four fields gets the type \<^verbatim>\<open>None\<close>.
\<close>

definition build_row_file :: "nat \<Rightarrow> string list \<Rightarrow> index \<Rightarrow> py_error + index" where
  "build_row_file record_id row idx =
     (case row of
        [] \<Rightarrow> Inl IndexError
      | name # _ \<Rightarrow>
          (let record = strip name;
               idx = idx\<lparr>vocab := (vocab idx)(record_id \<mapsto> record)\<rparr>;
               idx = (if length row > 1 then idx\<lparr>latitude := latitude idx @ [PStr (strip (row ! 1))]\<rparr>
                      else idx\<lparr>latitude := latitude idx @ [PNone]\<rparr>);
               idx = (if length row > 2 then idx\<lparr>longitude := longitude idx @ [PStr (strip (row ! 2))]\<rparr>
                      else idx\<lparr>longitude := longitude idx @ [PNone]\<rparr>);
               idx = (if length row > 3
                      then (if strip (row ! 3) = ''Gym'' then idx\<lparr>types := types idx @ [Some GYM]\<rparr>
                            else if strip (row ! 3) = ''Pokestop''
                            then idx\<lparr>types := types idx @ [Some POKESTOP]\<rparr>
                            else idx\<lparr>types := types idx @ [Some UNKNOWN]\<rparr>)
                      else idx\<lparr>types := types idx @ [None]\<rparr>)
           in Inr (index_qgrams record_id record idx)))"

text \<open>
  The loop over the rows, with the record id counting from 0; an exception ends it.
\<close>

fun build_rows ::
  "(nat \<Rightarrow> 'r \<Rightarrow> index \<Rightarrow> py_error + index) \<Rightarrow> nat \<Rightarrow> 'r list \<Rightarrow> index \<Rightarrow> py_error + index" where
  "build_rows step record_id [] idx = Inr idx"
| "build_rows step record_id (row # rows) idx =
     (case step record_id row idx of
        Inl e \<Rightarrow> Inl e
      | Inr idx' \<Rightarrow> build_rows step (record_id + 1) rows idx')"

definition build_from_lists :: "index \<Rightarrow> pyval list list \<Rightarrow> py_error + index" where
  "build_from_lists idx input = build_rows build_row_lists 0 input idx"

text \<open>
  \<^verbatim>\<open>build_from_file\<close> takes the rows the CSV reader yields for the file;
  \<^verbatim>\<open>next(reader, None)\<close> skips the header row, if there is one.
\<close>

definition build_from_file :: "index \<Rightarrow> string list list \<Rightarrow> py_error + index" where
  "build_from_file idx reader = build_rows build_row_file 0 (drop 1 reader) idx"

subsection \<open>Querying\<close>

definition get_posting_list :: "index \<Rightarrow> string \<Rightarrow> nat list" where
  "get_posting_list idx qgram = (case inverted_lists idx qgram of None \<Rightarrow> [] | Some l \<Rightarrow> l)"

definition get_score :: "index \<Rightarrow> string \<Rightarrow> string \<Rightarrow> py_error + rat" where
  "get_score idx query word =
     (case scoring_method idx of
        Some LEVENSHTEIN \<Rightarrow> Inr (levenshtein query word)
      | Some NEEDLEMAN_WUNSCH \<Rightarrow> Inr (needleman_wunsch_scoring query word)
      | Some AFFINE_GAPS \<Rightarrow> Inr (affine_gap_scoring query word)
      | None \<Rightarrow> Inl NotImplementedError)"

text \<open>Python's \<^verbatim>\<open>int(x)\<close> of a number: truncation towards zero.\<close>

definition py_int :: "rat \<Rightarrow> int" where
  "py_int x = (if 0 \<le> x then \<lfloor>x\<rfloor> else \<lceil>x\<rceil>)"

text \<open>
  The body of \<^verbatim>\<open>if count >= int(threshold)\<close>: the candidate is scored, and appended
  to the result unless a geofence of the channel excludes it.
\<close>

definition score_candidate ::
  "index \<Rightarrow> string \<Rightarrow> pyval \<Rightarrow> nat \<Rightarrow> string \<Rightarrow> string \<Rightarrow> scored_match list
   \<Rightarrow> py_error + scored_match list" where
  "score_candidate idx query channel_id record_id record word result_words =
     (case get_score idx query word of
        Inl e \<Rightarrow> Inl e
      | Inr ed \<Rightarrow>
     (case py_index (longitude idx) record_id of
        Inl e \<Rightarrow> Inl e
      | Inr lon \<Rightarrow>
     (case py_index (latitude idx) record_id of
        Inl e \<Rightarrow> Inl e
      | Inr lat \<Rightarrow>
     (case py_index (types idx) record_id of
        Inl e \<Rightarrow> Inl e
      | Inr type \<Rightarrow>
          (if use_geofences idx \<and> truthy channel_id
              \<and> channel_to_geofence_helper idx channel_id \<noteq> None
           then (let geofence_helper = the (channel_to_geofence_helper idx channel_id)
                 in if geofence_helper lat lon
                    then Inr (result_words @ [(record, (lat, lon), type, ed)])
                    else Inr result_words)
           else Inr (result_words @ [(record, (lat, lon), type, ed)]))))))"

text \<open>
  One pass of the loop over the merged candidates. \<^verbatim>\<open>self.vocab[record_id]\<close> raises
  KeyError for an id the store does not hold.
\<close>

definition visit ::
  "index \<Rightarrow> string \<Rightarrow> pyval \<Rightarrow> rat \<Rightarrow> nat \<times> int \<Rightarrow> scored_match list
   \<Rightarrow> py_error + scored_match list" where
  "visit idx query channel_id threshold cand result_words =
     (let (record_id, count) = cand
      in case vocab idx record_id of
           None \<Rightarrow> Inl KeyError
         | Some record \<Rightarrow>
             (let word = normalize record
              in if count \<ge> py_int threshold
                 then score_candidate idx query channel_id record_id record word result_words
                 else Inr result_words))"

fun visit_all ::
  "('c \<Rightarrow> 'r \<Rightarrow> py_error + 'r) \<Rightarrow> 'c list \<Rightarrow> 'r \<Rightarrow> py_error + 'r" where
  "visit_all step [] acc = Inr acc"
| "visit_all step (c # cs) acc =
     (case step c acc of Inl e \<Rightarrow> Inl e | Inr acc' \<Rightarrow> visit_all step cs acc')"

text \<open>The score of a match, the sorting key \<^verbatim>\<open>x[3]\<close>.\<close>

definition score :: "scored_match \<Rightarrow> rat" where
  "score x = snd (snd (snd x))"

definition merged_candidates :: "index \<Rightarrow> string \<Rightarrow> (nat \<times> int) list" where
  "merged_candidates idx query =
     merge (map (get_posting_list idx) (get_qgrams query (q idx)))"

definition query_threshold :: "index \<Rightarrow> string \<Rightarrow> rat" where
  "query_threshold idx query = of_int (int (length query) + q idx - 1) / 4"

text \<open>
  \<^verbatim>\<open>find_matches(self, query, delta, k, use_qindex, channel_id)\<close>. \<^verbatim>\<open>sorted\<close> is
  stable, as \<open>sort_key\<close> is, and \<^verbatim>\<open>[:k]\<close> is a Python slice.
\<close>

definition find_matches ::
  "index \<Rightarrow> string \<Rightarrow> 'd \<Rightarrow> int \<Rightarrow> bool \<Rightarrow> pyval \<Rightarrow> py_error + scored_match list" where
  "find_matches idx query delta k use_qindex channel_id =
     (case (if use_qindex
            then visit_all (visit idx query channel_id (query_threshold idx query))
                   (merged_candidates idx query) []
            else Inr [])
      of Inl e \<Rightarrow> Inl e
       | Inr result_words \<Rightarrow> Inr (py_prefix (sort_key score result_words) k))"

section \<open>Invariants\<close>

text \<open>A matrix of \<open>n\<close> rows of \<open>w\<close> cells each.\<close>

definition rect :: "nat \<Rightarrow> nat \<Rightarrow> 'a list list \<Rightarrow> bool" where
  "rect n w m \<longleftrightarrow> length m = n \<and> (\<forall>r \<in> set m. length r = w)"

text \<open>
  The state of a matrix while the nested loops fill it: row 0, column 0, the rows before
  \<open>x\<close> and the cells of row \<open>x\<close> before column \<open>j\<close> hold the values of the
  recurrence \<open>D\<close>.
\<close>

definition filled :: "(nat \<Rightarrow> nat \<Rightarrow> 'a) \<Rightarrow> nat \<Rightarrow> nat \<Rightarrow> 'a list list \<Rightarrow> nat \<Rightarrow> nat \<Rightarrow> bool" where
  "filled D n w m x j \<longleftrightarrow>
     rect n w m \<and>
     (\<forall>a < n. \<forall>b < w. (a = 0 \<or> b = 0 \<or> a < x \<or> (a = x \<and> b < j)) \<longrightarrow> get2 m a b = D a b)"

text \<open>
  Every record id of a posting list is held by the record store: the vocabulary has it
  and the three lists are long enough.
\<close>

definition wf_index :: "index \<Rightarrow> bool" where
  "wf_index idx \<longleftrightarrow>
     (\<forall>g l. inverted_lists idx g = Some l \<longrightarrow>
        (\<forall>r \<in> set l. vocab idx r \<noteq> None \<and> r < length (longitude idx)
                     \<and> r < length (latitude idx) \<and> r < length (types idx)))"

text \<open>
  The state of the index when a build loop has stored the records before \<open>record_id\<close>.
\<close>

definition build_inv :: "nat \<Rightarrow> index \<Rightarrow> bool" where
  "build_inv record_id idx \<longleftrightarrow>
     (\<forall>r < record_id. vocab idx r \<noteq> None)
     \<and> record_id \<le> length (longitude idx)
     \<and> record_id \<le> length (latitude idx)
     \<and> record_id \<le> length (types idx)
     \<and> (\<forall>g l. inverted_lists idx g = Some l \<longrightarrow> (\<forall>r \<in> set l. r < record_id))"

section \<open>The pipeline as the specification words it\<close>

text \<open>
  Steps 3 and 4 of the query pipeline: the candidates whose overlap count is below
  \<open>floor((len(query) + q - 1) / 4)\<close> are dropped, and each surviving candidate is
  normalised and scored.
\<close>

definition floor_threshold :: "index \<Rightarrow> string \<Rightarrow> int" where
  "floor_threshold idx query = (int (length query) + q idx - 1) div 4"

definition surviving :: "index \<Rightarrow> string \<Rightarrow> (nat \<times> int) list" where
  "surviving idx query =
     filter (\<lambda>(record_id, count). floor_threshold idx query \<le> count)
       (merged_candidates idx query)"

definition score_each ::
  "index \<Rightarrow> string \<Rightarrow> pyval \<Rightarrow> nat \<times> int \<Rightarrow> scored_match list \<Rightarrow> py_error + scored_match list" where
  "score_each idx query channel_id cand result_words =
     (case vocab idx (fst cand) of
        None \<Rightarrow> Inl KeyError
      | Some record \<Rightarrow>
          score_candidate idx query channel_id (fst cand) record (normalize record) result_words)"

text \<open>
  Step 5 of the query pipeline: a candidate is dropped when the index is geofence-aware,
  the channel identifier is supplied and has a geofence, and the coordinates of the
  candidate are in no geofence of the channel; otherwise it is kept. A kept candidate is
  returned as its display name, its coordinates, its category and its score under the
  scoring method.
\<close>

definition fence_keeps :: "index \<Rightarrow> pyval \<Rightarrow> nat \<times> int \<Rightarrow> bool" where
  "fence_keeps idx channel_id cand =
     (if use_geofences idx \<and> truthy channel_id
         \<and> channel_to_geofence_helper idx channel_id \<noteq> None
      then the (channel_to_geofence_helper idx channel_id)
             (latitude idx ! fst cand) (longitude idx ! fst cand)
      else True)"

definition method_score :: "SCORING_TYPE \<Rightarrow> string \<Rightarrow> string \<Rightarrow> rat" where
  "method_score sm query word =
     (case sm of
        LEVENSHTEIN \<Rightarrow> levenshtein query word
      | NEEDLEMAN_WUNSCH \<Rightarrow> needleman_wunsch_scoring query word
      | AFFINE_GAPS \<Rightarrow> affine_gap_scoring query word)"

definition match_of :: "index \<Rightarrow> SCORING_TYPE \<Rightarrow> string \<Rightarrow> nat \<times> int \<Rightarrow> scored_match" where
  "match_of idx sm query cand =
     (let record_id = fst cand; record = the (vocab idx record_id)
      in (record, (latitude idx ! record_id, longitude idx ! record_id), types idx ! record_id,
          method_score sm query (normalize record)))"

section \<open>Example data\<close>

text \<open>A catalog of two records, as \<^verbatim>\<open>build_from_lists\<close> takes it.\<close>

definition two_rows :: "pyval list list" where
  "two_rows = [[PStr ''ab'', PNum 0, PNum 0, PType GYM], [PStr ''abc'', PNum 1, PNum 1, PType POKESTOP]]"

text \<open>The index that \<^verbatim>\<open>build_from_lists\<close> builds from the two records, with \<open>q = 2\<close>.\<close>

definition two_index :: index where
  "two_index = projr (build_from_lists (new_index 2 False Map.empty) two_rows)"

text \<open>
  Geofences for three channels: the ones of the channels \<open>0\<close> and \<open>''''\<close> contain no
  point, and the one of channel \<open>7\<close> contains the points of latitude 0. The index is the
  one \<^verbatim>\<open>build_from_lists\<close> builds from the two records with geofences enabled.
\<close>

definition fences :: "pyval \<rightharpoonup> geofence_helper" where
  "fences = [PNum 0 \<mapsto> (\<lambda>lat lon. False), PStr [] \<mapsto> (\<lambda>lat lon. False),
             PNum 7 \<mapsto> (\<lambda>lat lon. lat = PNum 0)]"

definition fenced_index :: index where
  "fenced_index = projr (build_from_lists (new_index 2 True fences) two_rows)"

section \<open>Properties of the merger\<close>

lemma first_seen_set: "set (first_seen xs) = set xs"
  by (induction xs rule: first_seen.induct) auto

lemma first_seen_distinct: "distinct (first_seen xs)"
  by (induction xs rule: first_seen.induct) (auto simp: first_seen_set)

lemma bump_absent:
  "k \<notin> fst ` set c \<Longrightarrow>
   map (\<lambda>(k', n). (k', if k' = k then n + 1 else n)) c = (c :: ('a \<times> int) list)"
  by (induction c) auto

lemma bump_keys:
  "map fst (map (\<lambda>(k', n). (k', if k' = k then n + (1::int) else n)) c) = map fst c"
  by (induction c) auto

lemma counter_add_in:
  "k \<in> fst ` set c \<Longrightarrow> distinct (map fst c) \<Longrightarrow>
   counter_add c k = map (\<lambda>(k', n). (k', if k' = k then n + 1 else n)) c"
proof (induction c)
  case Nil
  then show ?case by simp
next
  case (Cons p c)
  obtain k' n where p: "p = (k', n)" by (cases p)
  show ?case
  proof (cases "k' = k")
    case True
    then have "k \<notin> fst ` set c" using Cons.prems(2) p by (simp add: image_iff)
    then show ?thesis using True p by (simp add: bump_absent)
  next
    case False
    then show ?thesis using Cons p by auto
  qed
qed

lemma counter_add_notin: "k \<notin> fst ` set c \<Longrightarrow> counter_add c k = c @ [(k, 1)]"
  by (induction c) auto

text \<open>
  Updating a counter with distinct keys: the old keys keep their place and gain the
  occurrences of the list, and the new keys follow in the order of first occurrence.
\<close>

lemma counter_update_eq:
  "distinct (map fst c) \<Longrightarrow>
   counter_update c xs =
     map (\<lambda>(k, n). (k, n + int (count_list xs k))) c @
     map (\<lambda>x. (x, int (count_list xs x))) (first_seen (filter (\<lambda>x. x \<notin> fst ` set c) xs))"
proof (induction xs arbitrary: c)
  case Nil
  then show ?case by (simp add: counter_update_def)
next
  case (Cons x xs)
  show ?case
  proof (cases "x \<in> fst ` set c")
    case True
    let ?c' = "map (\<lambda>(k', n). (k', if k' = x then n + 1 else n)) c"
    have c': "counter_add c x = ?c'" using True Cons.prems by (rule counter_add_in)
    have k: "map fst ?c' = map fst c" by (rule bump_keys)
    have d: "distinct (map fst ?c')" using Cons.prems unfolding k .
    have s: "fst ` set ?c' = fst ` set c" using k by (metis list.set_map)
    have A: "map (\<lambda>(k, n). (k, n + int (count_list xs k))) ?c' =
             map (\<lambda>(k, n). (k, n + int (count_list (x # xs) k))) c"
      by (induction c) auto
    have B: "map (\<lambda>y. (y, int (count_list xs y)))
               (first_seen (filter (\<lambda>y. y \<notin> fst ` set c) xs)) =
             map (\<lambda>y. (y, int (count_list (x # xs) y)))
               (first_seen (filter (\<lambda>y. y \<notin> fst ` set c) (x # xs)))"
      using True by (auto simp: first_seen_set)
    have "counter_update c (x # xs) = counter_update ?c' xs"
      by (simp add: counter_update_def c')
    also have "\<dots> = map (\<lambda>(k, n). (k, n + int (count_list xs k))) ?c' @
       map (\<lambda>x. (x, int (count_list xs x)))
         (first_seen (filter (\<lambda>x. x \<notin> fst ` set ?c') xs))"
      using Cons.IH [OF d] .
    finally show ?thesis unfolding s A B .
  next
    case False
    let ?c' = "c @ [(x, 1)]"
    have c': "counter_add c x = ?c'" using False by (rule counter_add_notin)
    have d: "distinct (map fst ?c')" using Cons.prems False by (simp add: image_iff)
    have s: "fst ` set ?c' = insert x (fst ` set c)" by auto
    have f: "filter (\<lambda>y. y \<notin> insert x (fst ` set c)) xs =
             removeAll x (filter (\<lambda>y. y \<notin> fst ` set c) xs)"
      by (induction xs) auto
    have A: "map (\<lambda>(k, n). (k, n + int (count_list xs k))) c =
             map (\<lambda>(k, n). (k, n + int (count_list (x # xs) k))) c"
      using False by (auto simp: image_iff)
    have B: "map (\<lambda>y. (y, int (count_list xs y)))
               (first_seen (removeAll x (filter (\<lambda>y. y \<notin> fst ` set c) xs))) =
             map (\<lambda>y. (y, int (count_list (x # xs) y)))
               (first_seen (removeAll x (filter (\<lambda>y. y \<notin> fst ` set c) xs)))"
      by (auto simp: first_seen_set)
    have "counter_update c (x # xs) = counter_update ?c' xs"
      by (simp add: counter_update_def c')
    also have "\<dots> = map (\<lambda>(k, n). (k, n + int (count_list xs k))) ?c' @
       map (\<lambda>x. (x, int (count_list xs x)))
         (first_seen (filter (\<lambda>x. x \<notin> fst ` set ?c') xs))"
      using Cons.IH [OF d] .
    finally show ?thesis using False unfolding s f by (simp add: A B)
  qed
qed

lemma merge_concat: "fold (\<lambda>l c. counter_update c l) ls c = counter_update c (concat ls)"
  by (induction ls arbitrary: c) (simp_all add: counter_update_def)

lemma merge_eq:
  "merge ls = map (\<lambda>x. (x, int (count_list (concat ls) x))) (first_seen (concat ls))"
  by (simp add: merge_def merge_concat counter_update_eq)

lemma merge_keys: "set (map fst (merge ls)) = set (concat ls)"
  unfolding merge_eq by (simp add: comp_def first_seen_set del: set_concat)

lemma merge_count_pos:
  assumes "(r, c) \<in> set (merge ls)"
  shows "1 \<le> c"
proof -
  from assms have r: "r \<in> set (concat ls)" and c: "c = int (count_list (concat ls) r)"
    unfolding merge_eq by (auto simp: first_seen_set simp del: set_concat)
  from r have "count_list (concat ls) r \<noteq> 0" by (simp only: count_list_0_iff not_not)
  with c show ?thesis by simp
qed

text \<open>
  Claim C1. For every sequence of input lists, \<open>merge\<close> returns every distinct record id
  of the concatenation of the lists, in the order of first occurrence, each paired with
  its number of occurrences in all lists; the two examples of the specification hold.
\<close>

theorem merge_first_seen_counts:
  "merge ls = map (\<lambda>x. (x, int (count_list (concat ls) x))) (first_seen (concat ls))
   \<and> distinct (map fst (merge ls))
   \<and> set (map fst (merge ls)) = set (concat ls)
   \<and> merge [[1, 2, 3], [2, 3, 4], [3, 4, 5 :: nat]] = [(1, 1), (2, 2), (3, 3), (4, 2), (5, 1)]
   \<and> merge [[], [] :: nat list] = []"
proof -
  have "distinct (map fst (merge ls))"
    by (simp add: merge_eq comp_def first_seen_distinct)
  moreover have "merge [[1, 2, 3], [2, 3, 4], [3, 4, 5 :: nat]]
                 = [(1, 1), (2, 2), (3, 3), (4, 2), (5, 1)]"
    by code_simp
  moreover have "merge [[], [] :: nat list] = []"
    by code_simp
  ultimately show ?thesis
    using merge_eq [of ls] merge_keys [of ls] by simp
qed

section \<open>Properties of the tokenizer\<close>

lemma length_pad: "length (pad text qn) = length text + 2 * nat (qn - 1)"
  by (simp add: pad_def)

lemma py_slice_window:
  "0 \<le> qn \<Longrightarrow> i + nat qn \<le> length s \<Longrightarrow>
   py_slice s (int i) (int i + qn) = take (nat qn) (drop i s)"
  by (auto simp: py_slice_def py_bound_def Let_def min_def)

lemma length_get_qgrams:
  "1 \<le> qn \<Longrightarrow> length (get_qgrams text qn) = length text + nat qn - 1"
  by (simp add: get_qgrams_def Let_def length_pad)

lemma nth_get_qgrams:
  assumes "1 \<le> qn" "i < length text + nat qn - 1"
  shows "get_qgrams text qn ! i = take (nat qn) (drop i (pad text qn))"
proof -
  have n: "nat (int (length (pad text qn)) - qn + 1) = length text + nat qn - 1"
    using assms(1) by (simp add: length_pad)
  have "i + nat qn \<le> length (pad text qn)"
    using assms by (simp add: length_pad)
  then show ?thesis using assms
    by (simp add: get_qgrams_def Let_def n py_slice_window)
qed

text \<open>
  Claim C3, as amended. For every text and every \<open>q \<ge> 1\<close>, \<open>get_qgrams\<close> returns
  exactly \<open>len(text) + q - 1\<close> q-grams, the \<open>i\<close>-th being the window of length \<open>q\<close> at
  position \<open>i\<close> of the padded text; the count is at least 1 when the text is not empty
  or \<open>q \<ge> 2\<close>.
\<close>

theorem get_qgrams_windows:
  assumes "1 \<le> qn"
  shows "length (get_qgrams text qn) = length text + nat qn - 1
         \<and> (\<forall>i < length text + nat qn - 1.
               get_qgrams text qn ! i = take (nat qn) (drop i (pad text qn))
               \<and> length (get_qgrams text qn ! i) = nat qn)
         \<and> (text \<noteq> [] \<or> 2 \<le> qn \<longrightarrow> 1 \<le> length (get_qgrams text qn))"
proof -
  have len: "length (get_qgrams text qn) = length text + nat qn - 1"
    using assms by (rule length_get_qgrams)
  have win: "get_qgrams text qn ! i = take (nat qn) (drop i (pad text qn))
             \<and> length (get_qgrams text qn ! i) = nat qn"
    if "i < length text + nat qn - 1" for i
  proof -
    have "i + nat qn \<le> length (pad text qn)" using assms that by (simp add: length_pad)
    then show ?thesis using nth_get_qgrams [OF assms that] by simp
  qed
  have pos: "1 \<le> length (get_qgrams text qn)" if "text \<noteq> [] \<or> 2 \<le> qn"
  proof -
    have "0 < length text \<or> 2 \<le> nat qn" using that by auto
    then show ?thesis using assms unfolding len by linarith
  qed
  show ?thesis using len win pos by blast
qed

theorem get_qgrams_windows_witness:
  "(1::int) \<le> 3
   \<and> length (get_qgrams ''bananarana'' 3) = 12
   \<and> get_qgrams ''bananarana'' 3 ! 0 = ''$$b''
   \<and> get_qgrams ''bananarana'' 3 ! 11 = ''a$$''
   \<and> 1 \<le> length (get_qgrams ''bananarana'' 3)"
proof -
  have h: "(1::int) \<le> 3" by simp
  have p0: "take (nat 3) (drop 0 (pad ''bananarana'' 3)) = ''$$b''" by code_simp
  have p11: "take (nat 3) (drop 11 (pad ''bananarana'' 3)) = ''a$$''" by code_simp
  from get_qgrams_windows [OF h, of "''bananarana''"] p0 p11 show ?thesis by simp
qed

text \<open>
  The claim as stated fails for the empty text and \<open>q = 1\<close>: there is no padding and no
  window, so the result is empty.
\<close>

theorem get_qgrams_empty_counterexample: "\<not> 1 \<le> length (get_qgrams [] 1)"
  by code_simp

section \<open>Properties of the query pipeline\<close>

text \<open>
  Claim C6. The parameter \<open>delta\<close> has no influence on the result of \<open>find_matches\<close>:
  for every index, query, \<open>k\<close>, prefilter flag and channel, any two values of \<open>delta\<close>
  give the same result.
\<close>

theorem find_matches_delta_unused:
  "find_matches idx query d1 k use_qindex channel_id =
   find_matches idx query d2 k use_qindex channel_id"
  by (simp add: find_matches_def)

lemma score_candidate_no_fence:
  "\<not> (truthy channel_id \<and> channel_id \<in> dom (channel_to_geofence_helper idx)) \<Longrightarrow>
   score_candidate idx query channel_id r record word acc =
   score_candidate (idx\<lparr>use_geofences := False\<rparr>) query channel_id r record word acc"
  by (auto simp: score_candidate_def get_score_def dom_def split: sum.splits)

lemma visit_no_fence:
  "\<not> (truthy channel_id \<and> channel_id \<in> dom (channel_to_geofence_helper idx)) \<Longrightarrow>
   visit idx query channel_id t cand acc =
   visit (idx\<lparr>use_geofences := False\<rparr>) query channel_id t cand acc"
  using score_candidate_no_fence [of channel_id idx]
  by (simp add: visit_def split: prod.splits option.splits)

lemma get_posting_list_use_geofences:
  "get_posting_list (idx\<lparr>use_geofences := b\<rparr>) = get_posting_list idx"
  by (intro ext) (simp add: get_posting_list_def)

text \<open>
  For a channel identifier that is falsy or not in the mapping, the result (or the
  exception) is the one of the same index with geofences switched off.
\<close>

lemma find_matches_geofences_off:
  assumes "\<not> (truthy channel_id \<and> channel_id \<in> dom (channel_to_geofence_helper idx))"
  shows "find_matches idx query delta k use_qindex channel_id =
         find_matches (idx\<lparr>use_geofences := False\<rparr>) query delta k use_qindex channel_id"
proof -
  have "visit idx query channel_id t = visit (idx\<lparr>use_geofences := False\<rparr>) query channel_id t"
    for t
    using visit_no_fence [OF assms] by (intro ext)
  then show ?thesis
    by (simp add: find_matches_def merged_candidates_def query_threshold_def
        get_posting_list_use_geofences)
qed

section \<open>Properties of the build operations\<close>

text \<open>
  Claim C2. The claim says that a row of fewer than four fields never fails a build and
  is stored with the category UNKNOWN. \<open>build_from_lists\<close> raises IndexError on a row of
  two fields, and \<open>build_from_file\<close> stores such a row with the category \<open>None\<close> (and
  the longitude \<open>None\<close>).
\<close>

theorem build_short_row_diverges:
  "isl (build_from_lists (new_index 3 False Map.empty) [[PStr ''Foo'', PNum 1]])
   \<and> projl (build_from_lists (new_index 3 False Map.empty) [[PStr ''Foo'', PNum 1]]) = IndexError
   \<and> map_sum id types
       (build_from_file (new_index 3 False Map.empty) [[''name'', ''lat''], [''Foo'', ''1'']])
     = Inr [None]
   \<and> map_sum id longitude
       (build_from_file (new_index 3 False Map.empty) [[''name'', ''lat''], [''Foo'', ''1'']])
     = Inr [PNone]"
  by code_simp

section \<open>Properties of the matrices\<close>

lemma rect_set2: "rect n w m \<Longrightarrow> rect n w (set2 m x y v)"
proof -
  assume r: "rect n w m"
  show ?thesis
  proof (cases "x < n")
    case True
    then have "length ((m ! x)[y := v]) = w" using r by (simp add: rect_def)
    then show ?thesis using r
      by (auto simp: rect_def set2_def dest!: subsetD [OF set_update_subset_insert])
  next
    case False
    then show ?thesis using r by (simp add: rect_def set2_def list_update_beyond)
  qed
qed

lemma get2_set2:
  "rect n w m \<Longrightarrow> x < n \<Longrightarrow> y < w \<Longrightarrow>
   get2 (set2 m x y v) a b = (if a = x \<and> b = y then v else get2 m a b)"
  by (auto simp: rect_def get2_def set2_def nth_list_update)

lemma rect_replicate: "rect n w (replicate n (replicate w z))"
  by (simp add: rect_def)

lemma get2_replicate: "a < n \<Longrightarrow> b < w \<Longrightarrow> get2 (replicate n (replicate w z)) a b = z"
  by (simp add: get2_def)

lemma filled_step:
  assumes f: "filled D n w m x j" and x: "1 \<le> x" "x < n" and j: "j < w"
  shows "filled D n w (set2 m x j (D x j)) x (Suc j)"
proof -
  have r: "rect n w m" using f by (simp add: filled_def)
  have c: "get2 m a b = D a b"
    if "a < n" "b < w" "a = 0 \<or> b = 0 \<or> a < x \<or> (a = x \<and> b < j)" for a b
    using f that unfolding filled_def by blast
  have "get2 (set2 m x j (D x j)) a b = D a b"
    if ab: "a < n" "b < w" and k: "a = 0 \<or> b = 0 \<or> a < x \<or> (a = x \<and> b < Suc j)" for a b
  proof (cases "a = x \<and> b = j")
    case True
    then show ?thesis by (simp add: get2_set2 [OF r x(2) j])
  next
    case False
    then have "a = 0 \<or> b = 0 \<or> a < x \<or> (a = x \<and> b < j)" using k by auto
    then have "get2 m a b = D a b" using ab by (intro c)
    then show ?thesis using False by (simp add: get2_set2 [OF r x(2) j])
  qed
  then show ?thesis using r by (simp add: filled_def rect_set2)
qed

lemma fold_column0:
  "rect n w m \<Longrightarrow> 0 < w \<Longrightarrow> hi \<le> n \<Longrightarrow>
   rect n w (fold (\<lambda>x mat. set2 mat x 0 (g x)) [lo ..< hi] m) \<and>
   (\<forall>a b. get2 (fold (\<lambda>x mat. set2 mat x 0 (g x)) [lo ..< hi] m) a b =
           (if b = 0 \<and> lo \<le> a \<and> a < hi then g a else get2 m a b))"
proof (induction hi)
  case 0
  then show ?case by simp
next
  case (Suc hi)
  show ?case
  proof (cases "lo \<le> hi")
    case True
    let ?m = "fold (\<lambda>x mat. set2 mat x 0 (g x)) [lo ..< hi] m"
    have ih: "rect n w ?m"
      "\<And>a b. get2 ?m a b = (if b = 0 \<and> lo \<le> a \<and> a < hi then g a else get2 m a b)"
      using Suc by simp_all
    have hi: "hi < n" using Suc.prems by simp
    have g: "get2 (set2 ?m hi 0 (g hi)) a b = (if a = hi \<and> b = 0 then g hi else get2 ?m a b)" for a b
      using get2_set2 [OF ih(1) hi Suc.prems(2)] .
    have e: "fold (\<lambda>x mat. set2 mat x 0 (g x)) [lo ..< Suc hi] m = set2 ?m hi 0 (g hi)"
      using True by simp
    show ?thesis unfolding e using ih(1) True
      by (auto simp: rect_set2 g ih(2))
  next
    case False
    then show ?thesis using Suc.prems by auto
  qed
qed

lemma fold_row0:
  "rect n w m \<Longrightarrow> 0 < n \<Longrightarrow> hi \<le> w \<Longrightarrow>
   rect n w (fold (\<lambda>y mat. set2 mat 0 y (g y)) [lo ..< hi] m) \<and>
   (\<forall>a b. get2 (fold (\<lambda>y mat. set2 mat 0 y (g y)) [lo ..< hi] m) a b =
           (if a = 0 \<and> lo \<le> b \<and> b < hi then g b else get2 m a b))"
proof (induction hi)
  case 0
  then show ?case by simp
next
  case (Suc hi)
  show ?case
  proof (cases "lo \<le> hi")
    case True
    let ?m = "fold (\<lambda>y mat. set2 mat 0 y (g y)) [lo ..< hi] m"
    have ih: "rect n w ?m"
      "\<And>a b. get2 ?m a b = (if a = 0 \<and> lo \<le> b \<and> b < hi then g b else get2 m a b)"
      using Suc by simp_all
    have hi: "hi < w" using Suc.prems by simp
    have g: "get2 (set2 ?m 0 hi (g hi)) a b = (if a = 0 \<and> b = hi then g hi else get2 ?m a b)" for a b
      using get2_set2 [OF ih(1) Suc.prems(2) hi] .
    have e: "fold (\<lambda>y mat. set2 mat 0 y (g y)) [lo ..< Suc hi] m = set2 ?m 0 hi (g hi)"
      using True by simp
    show ?thesis unfolding e using ih(1) True
      by (auto simp: rect_set2 g ih(2))
  next
    case False
    then show ?thesis using Suc.prems by auto
  qed
qed

lemma fill_row:
  assumes step: "\<And>m y. 1 \<le> y \<Longrightarrow> y < w \<Longrightarrow> filled D n w m x y \<Longrightarrow> f m y = D x y"
    and x: "1 \<le> x" "x < n"
  shows "j \<le> w \<Longrightarrow> 1 \<le> j \<Longrightarrow> filled D n w m x 1 \<Longrightarrow>
         filled D n w (fold (\<lambda>y mat. set2 mat x y (f mat y)) [1 ..< j] m) x j"
proof (induction j)
  case 0
  then show ?case by simp
next
  case (Suc j)
  show ?case
  proof (cases "1 \<le> j")
    case True
    let ?m = "fold (\<lambda>y mat. set2 mat x y (f mat y)) [1 ..< j] m"
    have ih: "filled D n w ?m x j" using Suc True by simp
    have jw: "j < w" using Suc.prems by simp
    have v: "f ?m j = D x j" using step [OF True jw ih] .
    have "filled D n w (set2 ?m x j (D x j)) x (Suc j)"
      using ih x jw by (rule filled_step)
    then show ?thesis using True v by simp
  next
    case False
    then have "j = 0" by simp
    then show ?thesis using Suc.prems by simp
  qed
qed

lemma fill_all:
  assumes step: "\<And>m x y. 1 \<le> x \<Longrightarrow> x < n \<Longrightarrow> 1 \<le> y \<Longrightarrow> y < w \<Longrightarrow> filled D n w m x y
                 \<Longrightarrow> f m x y = D x y"
    and w: "1 \<le> w"
  shows "i \<le> n \<Longrightarrow> 1 \<le> i \<Longrightarrow> filled D n w m 1 1 \<Longrightarrow>
         filled D n w
           (fold (\<lambda>x mat. fold (\<lambda>y mat. set2 mat x y (f mat x y)) [1 ..< w] mat) [1 ..< i] m) i 1"
proof (induction i)
  case 0
  then show ?case by simp
next
  case (Suc i)
  show ?case
  proof (cases "1 \<le> i")
    case True
    let ?m = "fold (\<lambda>x mat. fold (\<lambda>y mat. set2 mat x y (f mat x y)) [1 ..< w] mat) [1 ..< i] m"
    have ih: "filled D n w ?m i 1" using Suc True by simp
    have i_n: "i < n" using Suc.prems by simp
    have "filled D n w (fold (\<lambda>y mat. set2 mat i y (f mat i y)) [1 ..< w] ?m) i w"
      by (rule fill_row [where f = "\<lambda>m y. f m i y", OF step [OF True i_n] True i_n _ w ih]) simp_all
    then have "filled D n w (fold (\<lambda>y mat. set2 mat i y (f mat i y)) [1 ..< w] ?m) (Suc i) 1"
      unfolding filled_def by (auto simp: less_Suc_eq)
    then show ?thesis using True by simp
  next
    case False
    then have "i = 0" by simp
    then show ?thesis using Suc.prems by simp
  qed
qed

lemma filled_done: "filled D n w m n j \<Longrightarrow> a < n \<Longrightarrow> b < w \<Longrightarrow> get2 m a b = D a b"
  by (simp add: filled_def)

section \<open>Properties of the scorers\<close>

lemma ped_cell_rec:
  assumes "1 \<le> x" "x < n" "1 \<le> y" "y < w" "filled (edit_rec a b) n w m x y"
  shows "ped_cell m a b x y = edit_rec a b x y"
proof -
  obtain x' y' where xy: "x = Suc x'" "y = Suc y'"
    using assms(1,3) by (metis Suc_le_D One_nat_def)
  have c: "get2 m i j = edit_rec a b i j"
    if "i < n" "j < w" "i = 0 \<or> j = 0 \<or> i < x \<or> (i = x \<and> j < y)" for i j
    using assms(5) that unfolding filled_def by blast
  have 1: "get2 m x' y' = edit_rec a b x' y'" using assms xy by (intro c) auto
  have 2: "get2 m (Suc x') y' = edit_rec a b (Suc x') y'" using assms xy by (intro c) auto
  have 3: "get2 m x' (Suc y') = edit_rec a b x' (Suc y')" using assms xy by (intro c) auto
  show ?thesis by (simp add: ped_cell_def xy 1 2 3 Let_def)
qed

lemma ped_matrix_filled:
  assumes "1 \<le> n" "1 \<le> w"
  shows "filled (edit_rec a b) n w (ped_matrix a b n w) n 1"
proof -
  let ?m0 = "replicate n (replicate w (0::int))"
  let ?m1 = "fold (\<lambda>j mat. set2 mat j 0 (int j)) [1 ..< n] ?m0"
  let ?m2 = "fold (\<lambda>j mat. set2 mat 0 j (int j)) [1 ..< w] ?m1"
  have r0: "rect n w ?m0" by (rule rect_replicate)
  have c1: "rect n w ?m1"
    "\<And>i j. get2 ?m1 i j = (if j = 0 \<and> 1 \<le> i \<and> i < n then int i else get2 ?m0 i j)"
    using fold_column0 [OF r0, of n int 1] assms by simp_all
  have c2: "rect n w ?m2"
    "\<And>i j. get2 ?m2 i j = (if i = 0 \<and> 1 \<le> j \<and> j < w then int j else get2 ?m1 i j)"
    using fold_row0 [OF c1(1), of w int 1] assms by simp_all
  have col: "edit_rec a b i 0 = int i" for i by (cases i) simp_all
  have init: "filled (edit_rec a b) n w ?m2 1 1"
    unfolding filled_def
  proof (intro conjI allI impI)
    show "rect n w ?m2" by (rule c2(1))
  next
    fix i j
    assume ij: "i < n" "j < w" and "i = 0 \<or> j = 0 \<or> i < 1 \<or> (i = 1 \<and> j < 1)"
    then have z: "i = 0 \<or> j = 0" by auto
    show "get2 ?m2 i j = edit_rec a b i j"
      unfolding c2(2) c1(2) using ij z by (auto simp: get2_replicate col)
  qed
  have "filled (edit_rec a b) n w
          (fold (\<lambda>x mat. fold (\<lambda>y mat. set2 mat x y (ped_cell mat a b x y)) [1 ..< w] mat)
             [1 ..< n] ?m2) n 1"
    by (rule fill_all [where f = "\<lambda>m x y. ped_cell m a b x y", OF ped_cell_rec assms(2) _ assms(1) init])
       simp_all
  then show ?thesis by (simp add: ped_matrix_def Let_def)
qed

lemma py_min_Min: "xs \<noteq> [] \<Longrightarrow> py_min xs = Inr (Min (set xs))"
proof (cases xs)
  case Nil
  assume "xs \<noteq> []"
  with Nil show ?thesis by simp
next
  case (Cons a list)
  then show ?thesis using Min.set_eq_fold [of a list] by simp
qed

lemma rect_row: "rect n w m \<Longrightarrow> i < n \<Longrightarrow> length (m ! i) = w"
  by (simp add: rect_def)

lemma row_set:
  assumes "rect n w m" "i < n"
  shows "set (m ! i) = (\<lambda>j. get2 m i j) ` {..< w}"
proof -
  have "length (m ! i) = w" using assms by (rule rect_row)
  then show ?thesis unfolding get2_def
    by (metis atLeast0LessThan list.set_map map_nth set_upt)
qed

text \<open>
  Claim C5, as amended. For every prefix, text and \<open>delta\<close> with
  \<open>len(prefix) + delta \<ge> 0\<close> (so for every \<open>delta \<ge> 0\<close>), \<open>compute_ped\<close> builds a
  matrix of \<open>len(prefix) + 1\<close> rows and \<open>min(len(prefix) + delta + 1, len(str) + 1)\<close>
  columns whose cells hold the unit-cost edit-distance recurrence, and returns the minimum
  of the last row; the three examples of the specification hold.
\<close>

theorem compute_ped_last_row_minimum:
  assumes "0 \<le> int (length pre) + delta"
  shows "let n = length pre + 1;
             m = nat (min (int (length pre) + delta + 1) (int (length str) + 1));
             matrix = ped_matrix pre str n m
         in length matrix = n
            \<and> (\<forall>i < n. length (matrix ! i) = m)
            \<and> (\<forall>i < n. \<forall>j < m. get2 matrix i j = edit_rec pre str i j)
            \<and> compute_ped pre str delta = Inr (Min (set (matrix ! (n - 1))))
            \<and> compute_ped pre str delta
                = Inr (Min ((\<lambda>j. edit_rec pre str (length pre) j) ` {..< m}))
            \<and> compute_ped ''foo'' ''foo'' 0 = Inr 0
            \<and> compute_ped ''foot'' ''foo'' 0 = Inr 1
            \<and> compute_ped ''uniwer'' ''university'' 6 = Inr 1"
proof -
  have e1: "compute_ped ''foo'' ''foo'' 0 = Inr 0" by code_simp
  have e2: "compute_ped ''foot'' ''foo'' 0 = Inr 1" by code_simp
  have e3: "compute_ped ''uniwer'' ''university'' 6 = Inr 1" by code_simp
  define n where "n = length pre + 1"
  define m where "m = nat (min (int (length pre) + delta + 1) (int (length str) + 1))"
  define matrix where "matrix = ped_matrix pre str n m"
  have n1: "1 \<le> n" by (simp add: n_def)
  have m1: "1 \<le> m" using assms by (simp add: m_def)
  have f: "filled (edit_rec pre str) n m matrix n 1"
    unfolding matrix_def using n1 m1 by (rule ped_matrix_filled)
  then have r: "rect n m matrix" by (simp add: filled_def)
  have cells: "get2 matrix i j = edit_rec pre str i j" if "i < n" "j < m" for i j
    using f that by (rule filled_done)
  have last: "n - 1 < n" using n1 by simp
  have row: "set (matrix ! (n - 1)) = (\<lambda>j. get2 matrix (n - 1) j) ` {..< m}"
    using r last by (rule row_set)
  have ne: "matrix ! (n - 1) \<noteq> []"
    using rect_row [OF r last] m1 by auto
  have pos: "\<not> min (int (length pre) + delta + 1) (int (length str) + 1) \<le> 0"
    using assms by simp
  have nn: "nat (int (length pre) + 1) = n" by (simp add: n_def)
  have cp: "compute_ped pre str delta = py_min (matrix ! (n - 1))"
    unfolding compute_ped_def Let_def if_not_P [OF pos] nn matrix_def m_def ..
  have a: "compute_ped pre str delta = Inr (Min (set (matrix ! (n - 1))))"
    unfolding cp using ne by (rule py_min_Min)
  have "(\<lambda>j. get2 matrix (n - 1) j) ` {..< m} = (\<lambda>j. edit_rec pre str (length pre) j) ` {..< m}"
    using cells [OF last] by (auto simp: n_def)
  then have b: "compute_ped pre str delta
                = Inr (Min ((\<lambda>j. edit_rec pre str (length pre) j) ` {..< m}))"
    using a row by simp
  have "length matrix = n" using r by (simp add: rect_def)
  moreover have "\<forall>i < n. length (matrix ! i) = m" using r by (simp add: rect_row)
  ultimately show ?thesis
    using cells a b e1 e2 e3
    unfolding Let_def n_def [symmetric] m_def [symmetric] matrix_def [symmetric]
    by blast
qed

theorem compute_ped_last_row_minimum_witness:
  "0 \<le> int (length ''foot'') + 0
   \<and> compute_ped ''foot'' ''foo'' 0
       = Inr (Min ((\<lambda>j. edit_rec ''foot'' ''foo'' (length ''foot'') j)
                    ` {..< nat (min (int (length ''foot'') + 0 + 1) (int (length ''foo'') + 1))}))
   \<and> compute_ped ''foot'' ''foo'' 0 = Inr 1"
proof -
  have h: "0 \<le> int (length ''foot'') + 0" by simp
  show ?thesis
    using h compute_ped_last_row_minimum [OF h, of "''foo''"] unfolding Let_def by blast
qed

text \<open>
  The claim as stated fails for a \<open>delta\<close> below \<open>- len(prefix)\<close>: the matrix has no
  column, and the function raises instead of returning a minimum.
\<close>

theorem compute_ped_negative_delta_counterexample:
  "compute_ped '''' ''bar'' (- 1) = Inl ValueError
   \<and> compute_ped ''foo'' ''bar'' (- 4) = Inl IndexError"
  by code_simp

subsection \<open>Levenshtein distance\<close>

lemma edit_rec_sym: "edit_rec a b x y = edit_rec b a y x"
proof (induction a b x y rule: edit_rec.induct)
  case (1 a b y)
  then show ?case by (cases y) simp_all
next
  case (2 a b x)
  then show ?case by simp
next
  case (3 a b x y)
  then show ?case by (simp add: min.commute min.left_commute eq_commute [of "a ! x"])
qed

lemma dp_min_lev:
  assumes "1 \<le> x" "x < n" "1 \<le> y" "y < w"
    "filled (\<lambda>i j. of_int (edit_rec a b i j)) n w m x y"
  shows "dp_min m a b 0 1 1 x y = of_int (edit_rec a b x y)"
proof -
  obtain x' y' where xy: "x = Suc x'" "y = Suc y'"
    using assms(1,3) by (metis Suc_le_D One_nat_def)
  have c: "get2 m i j = of_int (edit_rec a b i j)"
    if "i < n" "j < w" "i = 0 \<or> j = 0 \<or> i < x \<or> (i = x \<and> j < y)" for i j
    using assms(5) that unfolding filled_def by blast
  have 1: "get2 m x' y' = of_int (edit_rec a b x' y')" using assms xy by (intro c) auto
  have 2: "get2 m (Suc x') y' = of_int (edit_rec a b (Suc x') y')" using assms xy by (intro c) auto
  have 3: "get2 m x' (Suc y') = of_int (edit_rec a b x' (Suc y'))" using assms xy by (intro c) auto
  show ?thesis
    by (simp add: dp_min_def min3_def xy 1 2 3 of_int_min min.commute min.left_commute)
qed

lemma init_matrix_filled:
  assumes "1 \<le> n" "1 \<le> w"
  shows "filled (\<lambda>i j. of_int (edit_rec a b i j)) n w (init_matrix n w) 1 1"
proof -
  let ?m0 = "replicate n (replicate w (0::rat))"
  let ?m1 = "fold (\<lambda>x mat. set2 mat x 0 (of_nat x)) [0 ..< n] ?m0"
  let ?m2 = "fold (\<lambda>y mat. set2 mat 0 y (of_nat y)) [0 ..< w] ?m1"
  have r0: "rect n w ?m0" by (rule rect_replicate)
  have c1: "rect n w ?m1"
    "\<And>i j. get2 ?m1 i j = (if j = 0 \<and> 0 \<le> i \<and> i < n then of_nat i else get2 ?m0 i j)"
    using fold_column0 [OF r0, of n of_nat 0] assms by simp_all
  have c2: "rect n w ?m2"
    "\<And>i j. get2 ?m2 i j = (if i = 0 \<and> 0 \<le> j \<and> j < w then of_nat j else get2 ?m1 i j)"
    using fold_row0 [OF c1(1), of w of_nat 0] assms by simp_all
  have col: "edit_rec a b i 0 = int i" for i by (cases i) simp_all
  have "filled (\<lambda>i j. of_int (edit_rec a b i j)) n w ?m2 1 1"
    unfolding filled_def
  proof (intro conjI allI impI)
    show "rect n w ?m2" by (rule c2(1))
  next
    fix i j
    assume ij: "i < n" "j < w" and "i = 0 \<or> j = 0 \<or> i < 1 \<or> (i = 1 \<and> j < 1)"
    then have z: "i = 0 \<or> j = 0" by auto
    show "get2 ?m2 i j = of_int (edit_rec a b i j)"
      unfolding c2(2) c1(2) using ij z by (auto simp: col)
  qed
  then show ?thesis by (simp add: init_matrix_def Let_def)
qed

lemma levenshtein_rec: "levenshtein a b = of_int (edit_rec a b (length a) (length b))"
proof -
  let ?n = "length a + 1" and ?w = "length b + 1"
  let ?D = "\<lambda>i j. (of_int (edit_rec a b i j) :: rat)"
  have "filled ?D ?n ?w
          (fold (\<lambda>x mat. fold (\<lambda>y mat. set2 mat x y (dp_min mat a b 0 1 1 x y)) [1 ..< ?w] mat)
             [1 ..< ?n] (init_matrix ?n ?w)) ?n 1"
    by (rule fill_all [where f = "\<lambda>m x y. dp_min m a b 0 1 1 x y" and D = ?D,
          OF dp_min_lev _ _ _ init_matrix_filled]) simp_all
  then have "filled ?D ?n ?w (levenshtein_matrix a b) ?n 1"
    by (simp add: levenshtein_matrix_def Let_def)
  then have "get2 (levenshtein_matrix a b) (length a) (length b) = ?D (length a) (length b)"
    by (rule filled_done) simp_all
  then show ?thesis by (simp add: levenshtein_def)
qed

text \<open>
  Claim C8. \<open>levenshtein\<close> is symmetric: for all sequences \<open>a\<close> and \<open>b\<close>,
  \<open>levenshtein(a, b) = levenshtein(b, a)\<close>; the distance between "perf" and "perv" is 1
  in both directions.
\<close>

theorem levenshtein_symmetric:
  "levenshtein a b = levenshtein b a
   \<and> levenshtein ''perf'' ''perv'' = 1
   \<and> levenshtein ''perv'' ''perf'' = 1"
proof -
  have "levenshtein a b = levenshtein b a"
    by (simp add: levenshtein_rec edit_rec_sym [of a b])
  moreover have "levenshtein ''perf'' ''perv'' = 1" by code_simp
  moreover have "levenshtein ''perv'' ''perf'' = 1" by code_simp
  ultimately show ?thesis by simp
qed

subsection \<open>The gap scorers\<close>

lemma fold_agree:
  assumes "I s"
    and "\<And>x s. x \<in> set xs \<Longrightarrow> I s \<Longrightarrow> f x s = g x s \<and> I (g x s)"
  shows "fold f xs s = fold g xs s \<and> I (fold g xs s)"
  using assms by (induction xs arbitrary: s) simp_all

text \<open>
  Column 0 of the matrix holds the row index, which no cell step changes; so the left
  neighbour of a cell of column 1 is at least 1, and the gap-opening test holds there.
\<close>

lemma column0_set2:
  assumes "rect n w m" "\<forall>i < n. get2 m i 0 = of_nat i" "x < n" "1 \<le> y" "y < w"
  shows "rect n w (set2 m x y v) \<and> (\<forall>i < n. get2 (set2 m x y v) i 0 = of_nat i)"
  using assms by (simp add: rect_set2 get2_set2 [OF assms(1)])

lemma gap_test_column1:
  assumes "rect n w m" "\<forall>i < n. get2 m i 0 = (of_nat i :: rat)" "x < n" "1 < w" "0 < gp"
  shows "gap_test (set2 m x 1 v) gp x 1"
proof -
  have "get2 (set2 m x 1 v) x 0 = of_nat x"
    using assms by (simp add: get2_set2 [OF assms(1)])
  moreover have "0 < (of_nat x :: rat) + gp"
    using assms(5) by (simp add: add_nonneg_pos)
  ultimately show ?thesis by (simp add: gap_test_def)
qed


lemma nw_cell_column1:
  assumes "rect n w (fst st)" "\<forall>i < n. get2 (fst st) i 0 = (of_nat i :: rat)" "x < n" "1 < w"
  shows "nw_cell gap_test seq1 seq2 x 1 st = nw_cell always_open seq1 seq2 x 1 st"
proof -
  obtain m go where st: "st = (m, go)" by (cases st)
  have "gap_test (set2 m x 1 v) 1 x 1" for v
    using assms by (intro gap_test_column1 [where n = n and w = w]) (simp_all add: st)
  then show ?thesis by (simp add: nw_cell_def st always_open_def)
qed

lemma affine_cell_column1:
  assumes "rect n w (fst st)" "\<forall>i < n. get2 (fst st) i 0 = (of_nat i :: rat)" "x < n" "1 < w"
  shows "affine_cell gap_test seq1 seq2 x 1 st = affine_cell always_open seq1 seq2 x 1 st"
proof -
  obtain m go where st: "st = (m, go)" by (cases st)
  have "gap_test (set2 m x 1 v) (1 / 2) x 1" for v
    using assms by (intro gap_test_column1 [where n = n and w = w]) (simp_all add: st)
  then show ?thesis by (simp add: affine_cell_def st always_open_def)
qed

lemma nw_cell_column0:
  assumes "rect n w (fst st)" "\<forall>i < n. get2 (fst st) i 0 = (of_nat i :: rat)" "x < n" "1 \<le> y" "y < w"
  shows "rect n w (fst (nw_cell test seq1 seq2 x y st))
         \<and> (\<forall>i < n. get2 (fst (nw_cell test seq1 seq2 x y st)) i 0 = of_nat i)"
proof -
  obtain m go where st: "st = (m, go)" by (cases st)
  have a: "rect n w m" "\<forall>i < n. get2 m i 0 = of_nat i" using assms by (simp_all add: st)
  let ?m1 = "set2 m x y (dp_min m seq1 seq2 (- 1) 1 1 x y)"
  have b: "rect n w ?m1 \<and> (\<forall>i < n. get2 ?m1 i 0 = of_nat i)"
    using a assms(3-5) by (rule column0_set2)
  then have c: "rect n w (set2 ?m1 x y v) \<and> (\<forall>i < n. get2 (set2 ?m1 x y v) i 0 = of_nat i)" for v
    using assms(3-5) by (intro column0_set2) simp_all
  show ?thesis using b c by (simp add: nw_cell_def st Let_def)
qed

lemma affine_cell_column0:
  assumes "rect n w (fst st)" "\<forall>i < n. get2 (fst st) i 0 = (of_nat i :: rat)" "x < n" "1 \<le> y" "y < w"
  shows "rect n w (fst (affine_cell test seq1 seq2 x y st))
         \<and> (\<forall>i < n. get2 (fst (affine_cell test seq1 seq2 x y st)) i 0 = of_nat i)"
proof -
  obtain m go where st: "st = (m, go)" by (cases st)
  have a: "rect n w m" "\<forall>i < n. get2 m i 0 = of_nat i" using assms by (simp_all add: st)
  let ?m1 = "set2 m x y (dp_min m seq1 seq2 (- 3) 1 (1 / 2) x y)"
  have b: "rect n w ?m1 \<and> (\<forall>i < n. get2 ?m1 i 0 = of_nat i)"
    using a assms(3-5) by (rule column0_set2)
  then have c: "rect n w (set2 ?m1 x y v) \<and> (\<forall>i < n. get2 (set2 ?m1 x y v) i 0 = of_nat i)" for v
    using assms(3-5) by (intro column0_set2) simp_all
  show ?thesis using b c by (simp add: affine_cell_def st Let_def)
qed

lemma init_matrix_column0:
  assumes "1 \<le> n" "1 \<le> w"
  shows "rect n w (init_matrix n w) \<and> (\<forall>i < n. get2 (init_matrix n w) i 0 = of_nat i)"
proof -
  have f: "filled (\<lambda>i j. of_int (edit_rec [] [] i j)) n w (init_matrix n w) 1 1"
    using assms by (rule init_matrix_filled)
  have col: "edit_rec [] [] i 0 = int i" for i by (cases i) simp_all
  show ?thesis using f assms unfolding filled_def by (auto simp: col)
qed

text \<open>
  The loops of a gap scorer, for a second sequence of at most one element: the steps with
  the test of the source and with the test that always holds give the same state.
\<close>

lemma gap_loops_column1:
  fixes cell1 cell2 :: "nat \<Rightarrow> nat \<Rightarrow> rat list list \<times> bool \<Rightarrow> rat list list \<times> bool"
  assumes w: "1 \<le> w" "w \<le> 2" and n: "1 \<le> n"
    and agree: "\<And>x st. rect n w (fst st) \<Longrightarrow> \<forall>i < n. get2 (fst st) i 0 = of_nat i \<Longrightarrow> x < n
                 \<Longrightarrow> 1 < w \<Longrightarrow> cell1 x 1 st = cell2 x 1 st"
    and keep: "\<And>x y st. rect n w (fst st) \<Longrightarrow> \<forall>i < n. get2 (fst st) i 0 = of_nat i \<Longrightarrow> x < n
                 \<Longrightarrow> 1 \<le> y \<Longrightarrow> y < w
                 \<Longrightarrow> rect n w (fst (cell2 x y st)) \<and> (\<forall>i < n. get2 (fst (cell2 x y st)) i 0 = of_nat i)"
  shows "fold (\<lambda>x st. fold (\<lambda>y st. cell1 x y st) [1 ..< w] st) [1 ..< n] (init_matrix n w, False)
       = fold (\<lambda>x st. fold (\<lambda>y st. cell2 x y st) [1 ..< w] st) [1 ..< n] (init_matrix n w, False)"
proof -
  let ?I = "\<lambda>st :: rat list list \<times> bool.
               rect n w (fst st) \<and> (\<forall>i < n. get2 (fst st) i 0 = of_nat i)"
  have inner: "fold (\<lambda>y st. cell1 x y st) [1 ..< w] st = fold (\<lambda>y st. cell2 x y st) [1 ..< w] st
               \<and> ?I (fold (\<lambda>y st. cell2 x y st) [1 ..< w] st)"
    if "x \<in> set [1 ..< n]" "?I st" for x st
  proof (rule fold_agree [where I = ?I, OF that(2)])
    fix y st'
    assume y: "y \<in> set [1 ..< w]" and I: "?I st'"
    have y1: "y = 1" "1 < w" using y w by auto
    have xn: "x < n" using that(1) by simp
    show "cell1 x y st' = cell2 x y st' \<and> ?I (cell2 x y st')"
      using agree [of st' x] keep [of st' x 1] I xn y1 by simp
  qed
  have "?I (init_matrix n w, False)"
    using init_matrix_column0 [OF n w(1)] by simp
  then show ?thesis
    using fold_agree [where I = ?I and f = "\<lambda>x st. fold (\<lambda>y st. cell1 x y st) [1 ..< w] st"
        and g = "\<lambda>x st. fold (\<lambda>y st. cell2 x y st) [1 ..< w] st" and xs = "[1 ..< n]",
        OF _ inner]
    by blast
qed

lemma gap_scorers_short:
  assumes "length seq2 \<le> 1"
  shows "needleman_wunsch_scoring seq1 seq2 = needleman_wunsch_unconditional seq1 seq2"
    and "affine_gap_scoring seq1 seq2 = affine_gap_unconditional seq1 seq2"
proof -
  let ?n = "length seq1 + 1" and ?w = "length seq2 + 1"
  have w: "1 \<le> ?w" "?w \<le> 2" and n: "1 \<le> ?n" using assms by simp_all
  have "fold (\<lambda>x st. fold (\<lambda>y st. nw_cell gap_test seq1 seq2 x y st) [1 ..< ?w] st) [1 ..< ?n]
          (init_matrix ?n ?w, False)
      = fold (\<lambda>x st. fold (\<lambda>y st. nw_cell always_open seq1 seq2 x y st) [1 ..< ?w] st) [1 ..< ?n]
          (init_matrix ?n ?w, False)"
    using w n
  proof (rule gap_loops_column1)
    show "nw_cell gap_test seq1 seq2 x 1 st = nw_cell always_open seq1 seq2 x 1 st"
      if "rect ?n ?w (fst st)" "\<forall>i < ?n. get2 (fst st) i 0 = of_nat i" "x < ?n" "1 < ?w" for x st
      using that by (rule nw_cell_column1)
    show "rect ?n ?w (fst (nw_cell always_open seq1 seq2 x y st))
          \<and> (\<forall>i < ?n. get2 (fst (nw_cell always_open seq1 seq2 x y st)) i 0 = of_nat i)"
      if "rect ?n ?w (fst st)" "\<forall>i < ?n. get2 (fst st) i 0 = of_nat i" "x < ?n" "1 \<le> y" "y < ?w"
      for x y st
      using that by (rule nw_cell_column0)
  qed
  then show "needleman_wunsch_scoring seq1 seq2 = needleman_wunsch_unconditional seq1 seq2"
    by (simp add: needleman_wunsch_scoring_def needleman_wunsch_unconditional_def gap_scoring_def)
  have "fold (\<lambda>x st. fold (\<lambda>y st. affine_cell gap_test seq1 seq2 x y st) [1 ..< ?w] st) [1 ..< ?n]
          (init_matrix ?n ?w, False)
      = fold (\<lambda>x st. fold (\<lambda>y st. affine_cell always_open seq1 seq2 x y st) [1 ..< ?w] st) [1 ..< ?n]
          (init_matrix ?n ?w, False)"
    using w n
  proof (rule gap_loops_column1)
    show "affine_cell gap_test seq1 seq2 x 1 st = affine_cell always_open seq1 seq2 x 1 st"
      if "rect ?n ?w (fst st)" "\<forall>i < ?n. get2 (fst st) i 0 = of_nat i" "x < ?n" "1 < ?w" for x st
      using that by (rule affine_cell_column1)
    show "rect ?n ?w (fst (affine_cell always_open seq1 seq2 x y st))
          \<and> (\<forall>i < ?n. get2 (fst (affine_cell always_open seq1 seq2 x y st)) i 0 = of_nat i)"
      if "rect ?n ?w (fst st)" "\<forall>i < ?n. get2 (fst st) i 0 = of_nat i" "x < ?n" "1 \<le> y" "y < ?w"
      for x y st
      using that by (rule affine_cell_column0)
  qed
  then show "affine_gap_scoring seq1 seq2 = affine_gap_unconditional seq1 seq2"
    by (simp add: affine_gap_scoring_def affine_gap_unconditional_def gap_scoring_def)
qed


text \<open>
  Claim C9, as amended. The gap-opening test holds at a cell exactly when the cell's value
  is the upper neighbour's plus the gap penalty or the left neighbour's value is not the
  negated gap penalty. It holds at every cell of column 1, so for every first sequence
  and every second sequence of at most one element each gap scorer equals the variant
  that adds the opening penalty whenever \<^verbatim>\<open>gap_opened\<close> is false.
\<close>

theorem gap_test_holds_in_column_one:
  "(gap_test matrix gp x y \<longleftrightarrow>
      get2 matrix x y = get2 matrix (x - 1) y + gp \<or> get2 matrix x (y - 1) \<noteq> - gp)
   \<and> (length seq2 \<le> 1 \<longrightarrow>
        needleman_wunsch_scoring seq1 seq2 = needleman_wunsch_unconditional seq1 seq2
        \<and> affine_gap_scoring seq1 seq2 = affine_gap_unconditional seq1 seq2)"
proof -
  have "get2 matrix x (y - 1) + gp \<noteq> 0 \<longleftrightarrow> get2 matrix x (y - 1) \<noteq> - gp"
    by (simp add: eq_neg_iff_add_eq_0)
  then show ?thesis
    using gap_scorers_short [of seq2 seq1] by (simp add: gap_test_def)
qed

theorem gap_test_holds_in_column_one_witness:
  "length ''b'' \<le> 1
   \<and> needleman_wunsch_scoring ''abc'' ''b'' = needleman_wunsch_unconditional ''abc'' ''b''
   \<and> affine_gap_scoring ''abc'' ''b'' = affine_gap_unconditional ''abc'' ''b''
   \<and> needleman_wunsch_scoring ''abc'' ''b'' = 4
   \<and> affine_gap_scoring ''abc'' ''b'' = - (3 / 2)"
proof -
  have h: "length ''b'' \<le> 1" by simp
  have v: "needleman_wunsch_scoring ''abc'' ''b'' = 4"
    "affine_gap_scoring ''abc'' ''b'' = - (3 / 2)" by code_simp+
  show ?thesis
    using gap_test_holds_in_column_one [of _ _ _ _ "''b''" "''abc''"] h v by simp
qed

text \<open>
  The claim as stated fails: the test is false at a cell whose left neighbour holds the
  negated gap penalty and whose value does not come from the upper neighbour, and the
  scorers then differ from the unconditional variants.
\<close>

theorem gap_test_not_always_true_counterexample:
  "needleman_wunsch_scoring ''aaa'' ''aab'' = 0
   \<and> needleman_wunsch_unconditional ''aaa'' ''aab'' = 3
   \<and> affine_gap_scoring ''a'' ''abaaaa'' = 7 / 2
   \<and> affine_gap_unconditional ''a'' ''abaaaa'' = 1 / 2"
  by code_simp

section \<open>The build invariant\<close>

lemma build_inv_new: "build_inv 0 (new_index qn use_geo c2g)"
  by (simp add: build_inv_def new_index_def)

lemma add_posting_fields:
  "vocab (add_posting r g idx) = vocab idx"
  "longitude (add_posting r g idx) = longitude idx"
  "latitude (add_posting r g idx) = latitude idx"
  "types (add_posting r g idx) = types idx"
  "q (add_posting r g idx) = q idx"
  by (simp_all add: add_posting_def Let_def)

lemma add_posting_lists:
  "inverted_lists (add_posting r g idx) g' = Some l \<Longrightarrow>
   (g' \<noteq> g \<and> inverted_lists idx g' = Some l)
   \<or> (g' = g \<and> (\<exists>l0. l = l0 @ [r] \<and> (inverted_lists idx g = Some l0 \<or> l0 = [])))"
  by (auto simp: add_posting_def Let_def split: if_splits)

lemma build_inv_add_posting:
  assumes "build_inv (Suc r) idx"
  shows "build_inv (Suc r) (add_posting r g idx)"
proof -
  have "r' < Suc r" if "inverted_lists (add_posting r g idx) g' = Some l" "r' \<in> set l" for g' l r'
    using add_posting_lists [OF that(1)] that(2) assms unfolding build_inv_def by auto
  then show ?thesis using assms unfolding build_inv_def add_posting_fields by blast
qed

lemma build_inv_index_qgrams:
  "build_inv (Suc r) idx \<Longrightarrow> build_inv (Suc r) (index_qgrams r record idx)"
proof -
  have "build_inv (Suc r) idx \<Longrightarrow> build_inv (Suc r) (fold (add_posting r) gs idx)" for gs
    by (induction gs arbitrary: idx) (simp_all add: build_inv_add_posting)
  then show "build_inv (Suc r) idx \<Longrightarrow> build_inv (Suc r) (index_qgrams r record idx)"
    by (simp add: index_qgrams_def)
qed

lemma build_inv_stored:
  assumes "build_inv r idx"
    "\<forall>r' < Suc r. vocab idx' r' \<noteq> None"
    "Suc r \<le> length (longitude idx')" "Suc r \<le> length (latitude idx')" "Suc r \<le> length (types idx')"
    "inverted_lists idx' = inverted_lists idx"
  shows "build_inv (Suc r) idx'"
  using assms unfolding build_inv_def by (auto simp: less_Suc_eq)

lemma build_row_lists_inv:
  assumes "build_row_lists r row idx = Inr idx'" "build_inv r idx"
  shows "build_inv (Suc r) idx'"
proof -
  from assms(1) obtain idx1 name where
    i: "idx' = index_qgrams r name idx1" and
    v: "vocab idx1 = (vocab idx)(r \<mapsto> name)" and
    lo: "length (longitude idx1) = Suc (length (longitude idx))" and
    la: "length (latitude idx1) = Suc (length (latitude idx))" and
    ty: "length (types idx1) = Suc (length (types idx))" and
    il: "inverted_lists idx1 = inverted_lists idx"
    by (auto simp: build_row_lists_def Let_def py_index_def
        split: list.splits pyval.splits if_splits sum.splits)
  have "build_inv (Suc r) idx1"
    using assms(2)
  proof (rule build_inv_stored)
    show "\<forall>r' < Suc r. vocab idx1 r' \<noteq> None"
      using assms(2) by (auto simp: v build_inv_def less_Suc_eq)
  qed (use assms(2) in \<open>simp_all add: lo la ty il build_inv_def\<close>)
  then show ?thesis unfolding i by (rule build_inv_index_qgrams)
qed

lemma build_row_file_inv:
  assumes "build_row_file r row idx = Inr idx'" "build_inv r idx"
  shows "build_inv (Suc r) idx'"
proof -
  from assms(1) obtain idx1 name where
    i: "idx' = index_qgrams r name idx1" and
    v: "vocab idx1 = (vocab idx)(r \<mapsto> name)" and
    lo: "length (longitude idx1) = Suc (length (longitude idx))" and
    la: "length (latitude idx1) = Suc (length (latitude idx))" and
    ty: "length (types idx1) = Suc (length (types idx))" and
    il: "inverted_lists idx1 = inverted_lists idx"
    by (auto simp: build_row_file_def Let_def split: list.splits if_splits)
  have "build_inv (Suc r) idx1"
    using assms(2)
  proof (rule build_inv_stored)
    show "\<forall>r' < Suc r. vocab idx1 r' \<noteq> None"
      using assms(2) by (auto simp: v build_inv_def less_Suc_eq)
  qed (use assms(2) in \<open>simp_all add: lo la ty il build_inv_def\<close>)
  then show ?thesis unfolding i by (rule build_inv_index_qgrams)
qed

lemma build_rows_inv:
  assumes step: "\<And>r row idx idx'. step r row idx = Inr idx' \<Longrightarrow> build_inv r idx \<Longrightarrow> build_inv (Suc r) idx'"
  shows "build_rows step r rows idx = Inr idx' \<Longrightarrow> build_inv r idx \<Longrightarrow>
         build_inv (r + length rows) idx'"
proof (induction rows arbitrary: r idx)
  case Nil
  then show ?case by simp
next
  case (Cons row rows)
  from Cons.prems(1) obtain idx1 where
    s: "step r row idx = Inr idx1" and b: "build_rows step (r + 1) rows idx1 = Inr idx'"
    by (auto split: sum.splits)
  have "build_inv (r + 1) idx1" using step [OF s Cons.prems(2)] by simp
  from Cons.IH [OF b this] show ?case by simp
qed

lemma build_inv_wf: "build_inv r idx \<Longrightarrow> wf_index idx"
  unfolding build_inv_def wf_index_def by (meson less_le_trans)

lemma built_wf:
  assumes "build_from_lists (new_index qn use_geo c2g) input = Inr idx
           \<or> build_from_file (new_index qn use_geo c2g) reader = Inr idx"
  shows "wf_index idx"
proof -
  from assms have "\<exists>r. build_inv r idx"
  proof
    assume h: "build_from_lists (new_index qn use_geo c2g) input = Inr idx"
    have "build_inv (0 + length input) idx"
    proof (rule build_rows_inv [where step = build_row_lists])
      show "build_rows build_row_lists 0 input (new_index qn use_geo c2g) = Inr idx"
        using h by (simp add: build_from_lists_def)
      show "build_inv 0 (new_index qn use_geo c2g)" by (rule build_inv_new)
    qed (blast intro: build_row_lists_inv)
    then show ?thesis ..
  next
    assume h: "build_from_file (new_index qn use_geo c2g) reader = Inr idx"
    have "build_inv (0 + length (drop 1 reader)) idx"
    proof (rule build_rows_inv [where step = build_row_file])
      show "build_rows build_row_file 0 (drop 1 reader) (new_index qn use_geo c2g) = Inr idx"
        using h by (simp add: build_from_file_def)
      show "build_inv 0 (new_index qn use_geo c2g)" by (rule build_inv_new)
    qed (blast intro: build_row_file_inv)
    then show ?thesis ..
  qed
  then show ?thesis using build_inv_wf by blast
qed

lemma wf_index_scoring_method [simp]: "wf_index (idx\<lparr>scoring_method := s\<rparr>) = wf_index idx"
  by (simp add: wf_index_def)

section \<open>The query pipeline on a built index\<close>

lemma merged_candidates_stored:
  assumes "wf_index idx" "(r, c) \<in> set (merged_candidates idx query)"
  shows "vocab idx r \<noteq> None \<and> r < length (longitude idx) \<and> r < length (latitude idx)
         \<and> r < length (types idx) \<and> 1 \<le> c"
proof -
  let ?ls = "map (get_posting_list idx) (get_qgrams query (q idx))"
  have c: "1 \<le> c" using assms(2) unfolding merged_candidates_def by (rule merge_count_pos)
  have "r \<in> set (map fst (merge ?ls))"
    using assms(2) unfolding merged_candidates_def by force
  then have "r \<in> set (concat ?ls)" unfolding merge_keys .
  then obtain g where "r \<in> set (get_posting_list idx g)" by auto
  then obtain l where "inverted_lists idx g = Some l" "r \<in> set l"
    by (cases "inverted_lists idx g") (auto simp: get_posting_list_def)
  then show ?thesis using assms(1) c unfolding wf_index_def by blast
qed

lemma py_int_quarter:
  assumes "1 \<le> c"
  shows "py_int (of_int x / 4) \<le> c \<longleftrightarrow> x div 4 \<le> c"
proof (cases "0 \<le> x")
  case True
  have "\<lfloor>(of_int x :: rat) / of_int 4\<rfloor> = x div 4" by (rule floor_divide_of_int_eq)
  then show ?thesis using True by (simp add: py_int_def)
next
  case False
  then have "(of_int x :: rat) / 4 \<le> 0" by simp
  then have "\<lceil>(of_int x :: rat) / 4\<rceil> \<le> 0" by (simp only: ceiling_le_zero)
  then have a: "\<lceil>(of_int x :: rat) / 4\<rceil> \<le> c" using assms by linarith
  have "x div 4 \<le> 0" using False by simp
  then have b: "x div 4 \<le> c" using assms by linarith
  have "py_int (of_int x / 4) = \<lceil>(of_int x :: rat) / 4\<rceil>"
    using False by (simp add: py_int_def)
  then show ?thesis using a b by simp
qed

lemma visit_threshold:
  assumes "vocab idx r \<noteq> None" "1 \<le> c"
  shows "visit idx query channel_id (query_threshold idx query) (r, c) acc =
         (if floor_threshold idx query \<le> c then score_each idx query channel_id (r, c) acc
          else Inr acc)"
  using assms py_int_quarter [OF assms(2), of "int (length query) + q idx - 1"]
  by (auto simp: visit_def score_each_def query_threshold_def floor_threshold_def)

lemma visit_all_filter:
  assumes "\<And>cand acc. cand \<in> set cs \<Longrightarrow> step cand acc = (if P cand then g cand acc else Inr acc)"
  shows "visit_all step cs acc = visit_all g (filter P cs) acc"
  using assms by (induction cs arbitrary: acc) (simp_all split: sum.splits)

lemma visit_all_surviving:
  assumes "wf_index idx"
  shows "visit_all (visit idx query channel_id (query_threshold idx query))
           (merged_candidates idx query) acc
         = visit_all (score_each idx query channel_id) (surviving idx query) acc"
  unfolding surviving_def
proof (rule visit_all_filter)
  fix cand acc
  assume m: "cand \<in> set (merged_candidates idx query)"
  obtain r c where cand: "cand = (r, c)" by (cases cand)
  have "vocab idx r \<noteq> None" "1 \<le> c"
    using merged_candidates_stored [OF assms, of r c query] m cand by simp_all
  then show "visit idx query channel_id (query_threshold idx query) cand acc =
         (if (case cand of (record_id, count) \<Rightarrow> floor_threshold idx query \<le> count)
          then score_each idx query channel_id cand acc else Inr acc)"
    unfolding cand by (simp add: visit_threshold)
qed

lemma score_each_total:
  assumes "wf_index idx" "scoring_method idx \<noteq> None" "cand \<in> set (merged_candidates idx query)"
  shows "\<exists>acc'. score_each idx query channel_id cand acc = Inr acc'"
proof -
  obtain r c where cand: "cand = (r, c)" by (cases cand)
  have s: "vocab idx r \<noteq> None" "r < length (longitude idx)" "r < length (latitude idx)"
    "r < length (types idx)"
    using merged_candidates_stored [OF assms(1), of r c query] assms(3) cand by simp_all
  obtain sm where "scoring_method idx = Some sm" using assms(2) by auto
  then have "\<exists>ed. get_score idx query w = Inr ed" for w
    by (cases sm) (simp_all add: get_score_def)
  then obtain ed where "get_score idx query (normalize (the (vocab idx r))) = Inr ed" by blast
  then show ?thesis using s
    by (auto simp: score_each_def score_candidate_def py_index_def cand Let_def)
qed

lemma visit_all_total:
  assumes "\<And>cand acc. cand \<in> set cs \<Longrightarrow> \<exists>acc'. step cand acc = Inr acc'"
  shows "\<exists>res. visit_all step cs acc = Inr res"
  using assms
proof (induction cs arbitrary: acc)
  case Nil
  then show ?case by simp
next
  case (Cons c cs)
  obtain acc' where "step c acc = Inr acc'" using Cons.prems [of c acc] by auto
  then show ?case using Cons.IH [of acc'] Cons.prems by simp
qed

lemma py_prefix_take: "0 \<le> k \<Longrightarrow> py_prefix xs k = take (nat k) xs"
  by (simp add: py_prefix_def py_slice_def py_bound_def Let_def min_def)

lemma find_matches_surviving:
  assumes "wf_index idx"
  shows "find_matches idx query delta k True channel_id =
         (case visit_all (score_each idx query channel_id) (surviving idx query) [] of
            Inl e \<Rightarrow> Inl e
          | Inr result_words \<Rightarrow> Inr (py_prefix (sort_key score result_words) k))"
  by (simp add: find_matches_def visit_all_surviving [OF assms])

text \<open>
  Claim C4. On a built index, with the prefilter enabled, \<open>find_matches\<close> scores exactly
  the merged candidates whose overlap count is at least
  \<open>floor((len(query) + q - 1) / 4)\<close>: each pass of the loop scores the candidate when
  its count reaches that threshold and leaves the result unchanged otherwise, and the
  result is the one obtained by dropping the candidates below the threshold first and
  scoring every candidate that is left.
\<close>

theorem find_matches_threshold:
  assumes "build_from_lists (new_index qn use_geo c2g) input = Inr idx0
           \<or> build_from_file (new_index qn use_geo c2g) reader = Inr idx0"
    and "idx = idx0\<lparr>scoring_method := sm\<rparr>"
  shows "(\<forall>cand \<in> set (merged_candidates idx query).
            visit idx query channel_id (query_threshold idx query) cand acc =
            (if floor_threshold idx query \<le> snd cand
             then score_each idx query channel_id cand acc else Inr acc))
         \<and> find_matches idx query delta k True channel_id =
           (case visit_all (score_each idx query channel_id) (surviving idx query) [] of
              Inl e \<Rightarrow> Inl e
            | Inr result_words \<Rightarrow> Inr (py_prefix (sort_key score result_words) k))"
proof -
  have wf: "wf_index idx" using built_wf [OF assms(1)] assms(2) by simp
  have a: "visit idx query channel_id (query_threshold idx query) cand acc =
        (if floor_threshold idx query \<le> snd cand
         then score_each idx query channel_id cand acc else Inr acc)"
    if "cand \<in> set (merged_candidates idx query)" for cand
  proof -
    obtain r c where cand: "cand = (r, c)" by (cases cand)
    have "vocab idx r \<noteq> None" "1 \<le> c"
      using merged_candidates_stored [OF wf, of r c query] that cand by simp_all
    then show ?thesis unfolding cand by (simp add: visit_threshold)
  qed
  show ?thesis
    using a find_matches_surviving [OF wf, of query delta k channel_id] by simp
qed

theorem find_matches_threshold_witness:
  "\<not> isl (build_from_lists (new_index 2 False Map.empty) two_rows)
   \<and> merged_candidates two_index ''abcdefghijklmn'' = [(0, 2), (1, 3)]
   \<and> floor_threshold two_index ''abcdefghijklmn'' = 3
   \<and> surviving two_index ''abcdefghijklmn'' = [(1, 3)]
   \<and> visit two_index ''abcdefghijklmn'' PNone (query_threshold two_index ''abcdefghijklmn'') (0, 2) []
       = Inr []
   \<and> find_matches two_index ''abcdefghijklmn'' () 5 True PNone =
       (case visit_all (score_each two_index ''abcdefghijklmn'' PNone)
               (surviving two_index ''abcdefghijklmn'') [] of
          Inl e \<Rightarrow> Inl e
        | Inr result_words \<Rightarrow> Inr (py_prefix (sort_key score result_words) 5))
   \<and> find_matches two_index ''abcdefghijklmn'' () 5 True PNone
       = Inr [(''abc'', (PNum 1, PNum 1), Some POKESTOP, - (1 / 2))]"
proof -
  have b: "\<not> isl (build_from_lists (new_index 2 False Map.empty) two_rows)" by code_simp
  then have h: "build_from_lists (new_index 2 False Map.empty) two_rows = Inr two_index
                \<or> build_from_file (new_index 2 False Map.empty) [] = Inr two_index"
    by (simp add: two_index_def)
  have "scoring_method two_index = Some AFFINE_GAPS" by code_simp
  then have "two_index\<lparr>scoring_method := Some AFFINE_GAPS\<rparr>
             = two_index\<lparr>scoring_method := scoring_method two_index\<rparr>"
    by simp
  then have s: "two_index = two_index\<lparr>scoring_method := Some AFFINE_GAPS\<rparr>"
    by simp
  have m: "merged_candidates two_index ''abcdefghijklmn'' = [(0, 2), (1, 3)]" by code_simp
  have f: "floor_threshold two_index ''abcdefghijklmn'' = 3" by code_simp
  have v: "surviving two_index ''abcdefghijklmn'' = [(1, 3)]" by code_simp
  have r: "find_matches two_index ''abcdefghijklmn'' () 5 True PNone
       = Inr [(''abc'', (PNum 1, PNum 1), Some POKESTOP, - (1 / 2))]" by code_simp
  from find_matches_threshold [OF h s, of "''abcdefghijklmn''" PNone "[]" "()" 5] b m f v r
  show ?thesis by simp
qed


lemma find_matches_all_k:
  assumes "wf_index idx" "scoring_method idx \<noteq> None"
  shows "\<exists>ws. \<forall>k. find_matches idx query delta k use_qindex channel_id
                  = Inr (py_prefix (sort_key score ws) k)"
proof (cases use_qindex)
  case True
  have "\<exists>acc'. score_each idx query channel_id cand acc = Inr acc'"
    if "cand \<in> set (surviving idx query)" for cand acc
    using score_each_total [OF assms, of cand query] that by (simp add: surviving_def)
  then obtain ws where
    "visit_all (score_each idx query channel_id) (surviving idx query) [] = Inr ws"
    using visit_all_total [of "surviving idx query" "score_each idx query channel_id" "[]"]
    by blast
  then have "\<forall>k. find_matches idx query delta k use_qindex channel_id
               = Inr (py_prefix (sort_key score ws) k)"
    using True by (simp add: find_matches_surviving [OF assms(1)])
  then show ?thesis ..
next
  case False
  then have "\<forall>k. find_matches idx query delta k use_qindex channel_id
               = Inr (py_prefix (sort_key score []) k)"
    by (simp add: find_matches_def)
  then show ?thesis ..
qed

text \<open>
  Claim C7, as amended. For every built index, every one of the three scoring methods,
  every query and every \<open>k \<ge> 0\<close>,
  \<open>find_matches\<close> returns a result sorted ascending by score, of length at most \<open>k\<close>,
  and for every \<open>k' \<ge> k\<close> the result for \<open>k\<close> is a prefix of the result for \<open>k'\<close>.
\<close>

theorem find_matches_top_k_prefix:
  assumes "build_from_lists (new_index qn use_geo c2g) input = Inr idx0
           \<or> build_from_file (new_index qn use_geo c2g) reader = Inr idx0"
    and "idx = idx0\<lparr>scoring_method := Some sm\<rparr>"
    and "0 \<le> k" "k \<le> k'"
  shows "\<exists>res res'.
           find_matches idx query delta k use_qindex channel_id = Inr res
           \<and> find_matches idx query delta k' use_qindex channel_id = Inr res'
           \<and> sorted (map score res)
           \<and> int (length res) \<le> k
           \<and> take (length res) res' = res"
proof -
  have wf: "wf_index idx" using built_wf [OF assms(1)] assms(2) by simp
  have sm: "scoring_method idx \<noteq> None" using assms(2) by simp
  obtain ws where ws: "find_matches idx query delta j use_qindex channel_id
                       = Inr (py_prefix (sort_key score ws) j)" for j
    using find_matches_all_k [OF wf sm, of query delta use_qindex channel_id] by blast
  let ?s = "sort_key score ws"
  have k: "py_prefix ?s k = take (nat k) ?s" using assms(3) by (rule py_prefix_take)
  have k': "py_prefix ?s k' = take (nat k') ?s" using assms(3,4) by (intro py_prefix_take) simp
  have "sorted (map score ?s)" by (rule sorted_sort_key)
  then have 1: "sorted (map score (take (nat k) ?s))"
    by (simp add: take_map [symmetric])
  have 2: "int (length (take (nat k) ?s)) \<le> k" using assms(3) by simp
  have "min (length (take (nat k) ?s)) (nat k') = length (take (nat k) ?s)"
    using assms(3,4) by simp
  then have 3: "take (length (take (nat k) ?s)) (take (nat k') ?s) = take (nat k) ?s"
    by (simp only: take_take take_all_iff length_take) (simp add: min_def)
  show ?thesis using ws [of k] ws [of k'] 1 2 3 unfolding k k' by blast
qed

theorem find_matches_top_k_prefix_witness:
  "\<not> isl (build_from_lists (new_index 2 False Map.empty) two_rows)
   \<and> (0::int) \<le> 1 \<and> (1::int) \<le> 5
   \<and> (\<exists>res res'.
         find_matches (two_index\<lparr>scoring_method := Some LEVENSHTEIN\<rparr>) ''ab'' () 1 True PNone
           = Inr res
         \<and> find_matches (two_index\<lparr>scoring_method := Some LEVENSHTEIN\<rparr>) ''ab'' () 5 True PNone
           = Inr res'
         \<and> sorted (map score res) \<and> int (length res) \<le> 1 \<and> take (length res) res' = res)
   \<and> find_matches (two_index\<lparr>scoring_method := Some LEVENSHTEIN\<rparr>) ''ab'' () 1 True PNone
       = Inr [(''ab'', (PNum 0, PNum 0), Some GYM, 0)]
   \<and> find_matches (two_index\<lparr>scoring_method := Some LEVENSHTEIN\<rparr>) ''ab'' () 5 True PNone
       = Inr [(''ab'', (PNum 0, PNum 0), Some GYM, 0), (''abc'', (PNum 1, PNum 1), Some POKESTOP, 1)]"
proof -
  have b: "\<not> isl (build_from_lists (new_index 2 False Map.empty) two_rows)" by code_simp
  then have h: "build_from_lists (new_index 2 False Map.empty) two_rows = Inr two_index
                \<or> build_from_file (new_index 2 False Map.empty) [] = Inr two_index"
    by (simp add: two_index_def)
  have r1: "find_matches (two_index\<lparr>scoring_method := Some LEVENSHTEIN\<rparr>) ''ab'' () 1 True PNone
       = Inr [(''ab'', (PNum 0, PNum 0), Some GYM, 0)]" by code_simp
  have r5: "find_matches (two_index\<lparr>scoring_method := Some LEVENSHTEIN\<rparr>) ''ab'' () 5 True PNone
       = Inr [(''ab'', (PNum 0, PNum 0), Some GYM, 0), (''abc'', (PNum 1, PNum 1), Some POKESTOP, 1)]"
    by code_simp
  have k: "(0::int) \<le> 1" "(1::int) \<le> 5" by simp_all
  from find_matches_top_k_prefix [OF h refl k, of LEVENSHTEIN "''ab''" "()" True PNone] b r1 r5 k
  show ?thesis by blast
qed

text \<open>
  The claim as stated fails for a negative \<open>k\<close>: the slice \<^verbatim>\<open>[:-1]\<close> drops the last
  match only, so the result for \<open>k = -1\<close> is longer than \<open>k\<close> and is not a prefix of the
  empty result for \<open>k' = 0\<close>.
\<close>

theorem find_matches_negative_k_counterexample:
  "\<not> isl (build_from_lists (new_index 2 False Map.empty) two_rows)
   \<and> find_matches two_index ''ab'' () (- 1) True PNone
       = Inr [(''ab'', (PNum 0, PNum 0), Some GYM, - 3)]
   \<and> find_matches two_index ''ab'' () 0 True PNone = Inr []"
  by code_simp

subsection \<open>The geofence filter\<close>

lemma get_score_method:
  "scoring_method idx = Some sm \<Longrightarrow> get_score idx query word = Inr (method_score sm query word)"
  by (cases sm) (simp_all add: get_score_def method_score_def)

lemma score_each_kept:
  assumes "wf_index idx" "scoring_method idx = Some sm"
    "cand \<in> set (merged_candidates idx query)"
  shows "score_each idx query channel_id cand acc =
         Inr (if fence_keeps idx channel_id cand then acc @ [match_of idx sm query cand] else acc)"
proof -
  obtain r c where cand: "cand = (r, c)" by (cases cand)
  have s: "vocab idx r \<noteq> None" "r < length (longitude idx)" "r < length (latitude idx)"
    "r < length (types idx)"
    using merged_candidates_stored [OF assms(1), of r c query] assms(3) cand by simp_all
  then obtain name where v: "vocab idx r = Some name" by auto
  show ?thesis
    using s
    by (simp add: score_each_def score_candidate_def py_index_def cand v Let_def
        get_score_method [OF assms(2)] fence_keeps_def match_of_def)
qed

lemma visit_all_kept:
  assumes "\<And>cand acc. cand \<in> set cs \<Longrightarrow> step cand acc = Inr (if P cand then acc @ [f cand] else acc)"
  shows "visit_all step cs acc = Inr (acc @ map f (filter P cs))"
  using assms by (induction cs arbitrary: acc) simp_all

lemma fence_keeps_unregistered:
  "\<not> (truthy channel_id \<and> channel_id \<in> dom (channel_to_geofence_helper idx)) \<Longrightarrow>
   fence_keeps idx channel_id cand"
  by (auto simp: fence_keeps_def)

text \<open>
  Claim C10. On a built index, \<open>find_matches\<close> returns the matches of the surviving
  candidates that the geofence filter keeps, and the filter drops a candidate only when
  geofences are enabled and the channel identifier is truthy and present in the mapping
  from channels to geofences. For a channel identifier that is falsy (\<open>None\<close>, 0 or
  the empty string) or not in the mapping, every surviving candidate is kept, even if a
  geofence is registered under that identifier.
\<close>

theorem find_matches_geofence_only_registered_channel:
  assumes "build_from_lists (new_index qn use_geo c2g) input = Inr idx0
           \<or> build_from_file (new_index qn use_geo c2g) reader = Inr idx0"
    and "idx = idx0\<lparr>scoring_method := Some sm\<rparr>"
  shows "find_matches idx query delta k True channel_id =
           Inr (py_prefix
                  (sort_key score
                     (map (match_of idx sm query)
                        (filter (fence_keeps idx channel_id) (surviving idx query)))) k)
         \<and> (\<not> (truthy channel_id \<and> channel_id \<in> dom (channel_to_geofence_helper idx)) \<longrightarrow>
              find_matches idx query delta k True channel_id =
                Inr (py_prefix
                       (sort_key score (map (match_of idx sm query) (surviving idx query))) k))"
proof -
  have wf: "wf_index idx" using built_wf [OF assms(1)] assms(2) by simp
  have sm: "scoring_method idx = Some sm" using assms(2) by simp
  have "visit_all (score_each idx query channel_id) (surviving idx query) []
        = Inr ([] @ map (match_of idx sm query)
                      (filter (fence_keeps idx channel_id) (surviving idx query)))"
  proof (rule visit_all_kept)
    fix cand acc
    assume "cand \<in> set (surviving idx query)"
    then have "cand \<in> set (merged_candidates idx query)" by (simp add: surviving_def)
    then show "score_each idx query channel_id cand acc =
         Inr (if fence_keeps idx channel_id cand then acc @ [match_of idx sm query cand] else acc)"
      by (rule score_each_kept [OF wf sm])
  qed
  then have a: "find_matches idx query delta k True channel_id =
           Inr (py_prefix
                  (sort_key score
                     (map (match_of idx sm query)
                        (filter (fence_keeps idx channel_id) (surviving idx query)))) k)"
    by (simp add: find_matches_surviving [OF wf])
  have "filter (fence_keeps idx channel_id) (surviving idx query) = surviving idx query"
    if "\<not> (truthy channel_id \<and> channel_id \<in> dom (channel_to_geofence_helper idx))"
    using fence_keeps_unregistered [OF that] by simp
  then show ?thesis using a by simp
qed

theorem find_matches_geofence_only_registered_channel_witness:
  "\<not> isl (build_from_lists (new_index 2 True fences) two_rows)
   \<and> use_geofences fenced_index
   \<and> PNum 0 \<in> dom (channel_to_geofence_helper fenced_index)
   \<and> \<not> (truthy (PNum 0) \<and> PNum 0 \<in> dom (channel_to_geofence_helper fenced_index))
   \<and> surviving fenced_index ''ab'' = [(0, 3), (1, 2)]
   \<and> find_matches fenced_index ''ab'' () 5 True (PNum 0) =
        Inr (py_prefix
               (sort_key score
                  (map (match_of fenced_index AFFINE_GAPS ''ab'') (surviving fenced_index ''ab''))) 5)
   \<and> find_matches fenced_index ''ab'' () 5 True (PNum 0) =
        Inr [(''ab'', (PNum 0, PNum 0), Some GYM, - 3),
             (''abc'', (PNum 1, PNum 1), Some POKESTOP, - (5 / 2))]
   \<and> find_matches fenced_index ''ab'' () 5 True (PStr []) =
        Inr [(''ab'', (PNum 0, PNum 0), Some GYM, - 3),
             (''abc'', (PNum 1, PNum 1), Some POKESTOP, - (5 / 2))]
   \<and> find_matches fenced_index ''ab'' () 5 True PNone =
        Inr [(''ab'', (PNum 0, PNum 0), Some GYM, - 3),
             (''abc'', (PNum 1, PNum 1), Some POKESTOP, - (5 / 2))]
   \<and> find_matches fenced_index ''ab'' () 5 True (PNum 7) =
        Inr [(''ab'', (PNum 0, PNum 0), Some GYM, - 3)]"
proof -
  have b: "\<not> isl (build_from_lists (new_index 2 True fences) two_rows)" by code_simp
  then have h: "build_from_lists (new_index 2 True fences) two_rows = Inr fenced_index
                \<or> build_from_file (new_index 2 True fences) [] = Inr fenced_index"
    by (simp add: fenced_index_def)
  have "scoring_method fenced_index = Some AFFINE_GAPS" by code_simp
  then have "fenced_index\<lparr>scoring_method := Some AFFINE_GAPS\<rparr>
             = fenced_index\<lparr>scoring_method := scoring_method fenced_index\<rparr>"
    by simp
  then have s: "fenced_index = fenced_index\<lparr>scoring_method := Some AFFINE_GAPS\<rparr>"
    by simp
  have u: "use_geofences fenced_index" by code_simp
  have d: "channel_to_geofence_helper fenced_index (PNum 0) \<noteq> None" by code_simp
  have f: "\<not> (truthy (PNum 0) \<and> PNum 0 \<in> dom (channel_to_geofence_helper fenced_index))"
    by simp
  have v: "surviving fenced_index ''ab'' = [(0, 3), (1, 2)]" by code_simp
  have r0: "find_matches fenced_index ''ab'' () 5 True (PNum 0) =
        Inr [(''ab'', (PNum 0, PNum 0), Some GYM, - 3),
             (''abc'', (PNum 1, PNum 1), Some POKESTOP, - (5 / 2))]" by code_simp
  have re: "find_matches fenced_index ''ab'' () 5 True (PStr []) =
        Inr [(''ab'', (PNum 0, PNum 0), Some GYM, - 3),
             (''abc'', (PNum 1, PNum 1), Some POKESTOP, - (5 / 2))]" by code_simp
  have rn: "find_matches fenced_index ''ab'' () 5 True PNone =
        Inr [(''ab'', (PNum 0, PNum 0), Some GYM, - 3),
             (''abc'', (PNum 1, PNum 1), Some POKESTOP, - (5 / 2))]" by code_simp
  have r7: "find_matches fenced_index ''ab'' () 5 True (PNum 7) =
        Inr [(''ab'', (PNum 0, PNum 0), Some GYM, - 3)]" by code_simp
  from find_matches_geofence_only_registered_channel [OF h s, of "''ab''" "()" 5 "PNum 0"]
    b u d f v r0 re rn r7
  show ?thesis by (auto simp: dom_def)
qed

end
